theory Spec2Isabelle
  imports Main
begin

section \<open>Text\<close>

text \<open>
  A JavaScript string is modelled as a \<^typ>\<open>string\<close>, one \<^typ>\<open>char\<close> per code unit; the
  model therefore covers texts whose code units are below 256. \<open>length\<close> is the
  \<open>.length\<close> of the source and \<open>take n\<close> is \<open>substring(0, n)\<close>.
\<close>

abbreviation LF :: char where "LF \<equiv> CHR 0x0A"
abbreviation CR :: char where "CR \<equiv> CHR 0x0D"
abbreviation DQUOTE :: char where "DQUOTE \<equiv> CHR 0x22"
abbreviation SQUOTE :: char where "SQUOTE \<equiv> CHR 0x27"
abbreviation BACKTICK :: char where "BACKTICK \<equiv> CHR 0x60"

definition is_space :: "char \<Rightarrow> bool" where
  \<comment> \<open>the class \<open>\s\<close> of a regular expression, which is also what \<open>trim()\<close> strips\<close>
  "is_space c \<longleftrightarrow>
     c = CHR 0x09 \<or> c = LF \<or> c = CHR 0x0B \<or> c = CHR 0x0C \<or> c = CR \<or> c = CHR 0x20 \<or> c = CHR 0xA0"

definition is_line_term :: "char \<Rightarrow> bool" where
  \<comment> \<open>the characters \<open>.\<close> does not match, before and after which \<open>$\<close> and \<open>^\<close> match under \<open>/m\<close>:
      the two line terminators below 256; the other two, U+2028 and U+2029, are outside
      the texts of this model\<close>
  "is_line_term c \<longleftrightarrow> c = LF \<or> c = CR"

definition trim :: "string \<Rightarrow> string" where
  "trim s = rev (dropWhile is_space (rev (dropWhile is_space s)))"

definition trimEnd :: "string \<Rightarrow> string" where
  "trimEnd s = rev (dropWhile is_space (rev s))"

definition starts_with :: "string \<Rightarrow> string \<Rightarrow> bool" where
  \<comment> \<open>\<open>s.startsWith(p)\<close>\<close>
  "starts_with p s \<longleftrightarrow> take (length p) s = p"

fun split_on :: "char \<Rightarrow> string \<Rightarrow> string list" where
  \<comment> \<open>\<open>s.split(d)\<close> for a one-character separator: never empty, \<open>''''\<close> gives \<open>['''']\<close>\<close>
  "split_on d [] = [[]]"
| "split_on d (c # cs) =
     (let r = split_on d cs in if c = d then [] # r else (c # hd r) # tl r)"

fun join :: "string \<Rightarrow> string list \<Rightarrow> string" where
  \<comment> \<open>\<open>xs.join(sep)\<close>\<close>
  "join sep [] = []"
| "join sep [x] = x"
| "join sep (x # y # ys) = x @ sep @ join sep (y # ys)"

fun find_sub :: "string \<Rightarrow> string \<Rightarrow> (string \<times> string) option" where
  \<comment> \<open>the leftmost occurrence of \<open>pat\<close> in a text: what stands before it and what after\<close>
  "find_sub pat [] = (if pat = [] then Some ([], []) else None)"
| "find_sub pat (c # cs) =
     (if starts_with pat (c # cs) then Some ([], drop (length pat) (c # cs))
      else map_option (\<lambda>(b, a). (c # b, a)) (find_sub pat cs))"

section \<open>Frontmatter normalizer\<close>

text \<open>
  \<open>content.match(/^---\n([\s\S]*?)\n---/)\<close>: the text starts with \<open>---\<close> and a line feed,
  the lazy group runs to the leftmost \<open>\n---\<close> after these four characters. The result is
  the group and the text after the whole match.
\<close>

definition match_frontmatter :: "string \<Rightarrow> (string \<times> string) option" where
  "match_frontmatter content =
     (if starts_with ''---\<newline>'' content then find_sub ''\<newline>---'' (drop 4 content) else None)"

definition key_line :: "string \<Rightarrow> string \<Rightarrow> bool" where
  \<comment> \<open>\<open>line.match(/^\s*key:\s*/)\<close>\<close>
  "key_line k line \<longleftrightarrow> starts_with (k @ '':'') (dropWhile is_space line)"

definition is_field_char :: "char \<Rightarrow> bool" where
  \<comment> \<open>the class \<open>[a-zA-Z_-]\<close>\<close>
  "is_field_char c \<longleftrightarrow>
     c \<in> set ''abcdefghijklmnopqrstuvwxyzABCDEFGHIJKLMNOPQRSTUVWXYZ_-''"

definition is_quote :: "char \<Rightarrow> bool" where
  "is_quote c \<longleftrightarrow> c = DQUOTE \<or> c = SQUOTE"

definition match_quoted :: "string \<Rightarrow> (string \<times> string \<times> string) option" where
  \<comment> \<open>\<open>line.match(/^(\s*)([a-zA-Z_-]+):\s*["']([^"']+)["']\s*$/)\<close>: indent, field, value\<close>
  "match_quoted line =
     (let indent = takeWhile is_space line;
          r1 = dropWhile is_space line;
          field = takeWhile is_field_char r1
      in (if field = [] then None
          else (case dropWhile is_field_char r1 of
            [] \<Rightarrow> None
          | c # r3 \<Rightarrow>
              (if c \<noteq> CHR '':'' then None
               else (case dropWhile is_space r3 of
                 [] \<Rightarrow> None
               | q # r4 \<Rightarrow>
                   (if \<not> is_quote q then None
                    else (let v = takeWhile (\<lambda>x. \<not> is_quote x) r4
                          in (if v = [] then None
                              else (case dropWhile (\<lambda>x. \<not> is_quote x) r4 of
                                [] \<Rightarrow> None
                              | q2 # r6 \<Rightarrow>
                                  (if list_all is_space r6 then Some (indent, field, v)
                                   else None))))))))))"

definition needsQuotes :: "string \<Rightarrow> bool" where
  "needsQuotes v \<longleftrightarrow>
     (\<exists>c \<in> set v. c \<in> set '':#[]{}|>&*!?,'')
     \<or> (case v of [] \<Rightarrow> False | c # _ \<Rightarrow> c = CHR ''@'' \<or> c = BACKTICK \<or> c = SQUOTE \<or> c = DQUOTE)
     \<or> trim v \<noteq> v"

definition fix_quoted :: "string \<Rightarrow> string" where
  \<comment> \<open>what the loop pushes for a line it keeps\<close>
  "fix_quoted line =
     (case match_quoted line of
        Some (indent, field, v) \<Rightarrow> if \<not> needsQuotes v then indent @ field @ '': '' @ v else line
      | None \<Rightarrow> line)"

record fm_state =
  hasName :: bool
  hasDescription :: bool
  hasModel :: bool
  fixedLines :: "string list"

definition fm_step :: "fm_state \<Rightarrow> string \<Rightarrow> fm_state" where
  \<comment> \<open>one round of \<open>for (const line of lines)\<close>\<close>
  "fm_step st line =
     (if key_line ''tools'' line then st
      else if key_line ''allowed-tools'' line then st
      else \<lparr> hasName = hasName st \<or> key_line ''name'' line,
             hasDescription = hasDescription st \<or> key_line ''description'' line,
             hasModel = hasModel st \<or> key_line ''model'' line,
             fixedLines = fixedLines st @ [fix_quoted line] \<rparr>)"

definition fm_init :: fm_state where
  "fm_init = \<lparr> hasName = False, hasDescription = False, hasModel = False, fixedLines = [] \<rparr>"

definition add_missing :: "string \<Rightarrow> fm_state \<Rightarrow> string list" where
  \<comment> \<open>\<open>unshift\<close> of a missing name, \<open>push\<close> of a missing description and model\<close>
  "add_missing agentName st =
     (let l1 = (if hasName st then fixedLines st else (''name: '' @ agentName) # fixedLines st);
          l2 = (if hasDescription st then l1 else l1 @ [''description: Agent for '' @ agentName]);
          l3 = (if hasModel st then l2 else l2 @ [''model: sonnet''])
      in l3)"

text \<open>
  \<open>String.prototype.replace\<close> with a replacement string expands \<open>$$\<close>, \<open>$&\<close>, \<open>$`\<close> and
  \<open>$'\<close> in it. The pattern of the final \<open>replace\<close> has no group, so \<open>$1\<close> and the like stay
  as they are; the match starts at index 0, so \<open>$`\<close> is empty.
\<close>

fun expand_replacement :: "string \<Rightarrow> string \<Rightarrow> string \<Rightarrow> string" where
  "expand_replacement matched after [] = []"
| "expand_replacement matched after [c] = [c]"
| "expand_replacement matched after (c # d # t) =
     (if c \<noteq> CHR ''$'' then c # expand_replacement matched after (d # t)
      else if d = CHR ''$'' then CHR ''$'' # expand_replacement matched after t
      else if d = CHR ''&'' then matched @ expand_replacement matched after t
      else if d = BACKTICK then expand_replacement matched after t
      else if d = SQUOTE then after @ expand_replacement matched after t
      else c # expand_replacement matched after (d # t))"

definition replace_frontmatter :: "string \<Rightarrow> string \<Rightarrow> string" where
  \<comment> \<open>\<open>content.replace(/^---\n[\s\S]*?\n---/, replacement)\<close>\<close>
  "replace_frontmatter content replacement =
     (case match_frontmatter content of
        None \<Rightarrow> content
      | Some (fm, after) \<Rightarrow>
          expand_replacement (''---\<newline>'' @ fm @ ''\<newline>---'') after replacement @ after)"

definition fixFrontmatterFormat :: "string \<Rightarrow> string \<Rightarrow> string" where
  \<comment> \<open>the second argument is \<open>path.basename(agentPath, '.md')\<close>\<close>
  "fixFrontmatterFormat content agentName =
     (case match_frontmatter content of
        None \<Rightarrow>
          ''---\<newline>name: '' @ agentName @ ''\<newline>description: Agent for '' @ agentName
            @ ''\<newline>model: sonnet\<newline>---\<newline>\<newline>'' @ content
      | Some (frontmatter, after) \<Rightarrow>
          (let st = foldl fm_step fm_init (split_on LF frontmatter);
               fixedFrontmatter = join ''\<newline>'' (add_missing agentName st)
           in replace_frontmatter content (''---\<newline>'' @ fixedFrontmatter @ ''\<newline>---'')))"

definition header_lines :: "string \<Rightarrow> string list" where
  \<comment> \<open>the lines of the header block of a text, as the normalizer reads them\<close>
  "header_lines content =
     (case match_frontmatter content of None \<Rightarrow> [] | Some (fm, after) \<Rightarrow> split_on LF fm)"

text \<open>Notions the statements about the normalizer use.\<close>

definition dropped_key :: "string \<Rightarrow> bool" where
  \<comment> \<open>a line the loop skips: \<open>tools:\<close> or \<open>allowed-tools:\<close>\<close>
  "dropped_key line \<longleftrightarrow> key_line ''tools'' line \<or> key_line ''allowed-tools'' line"

definition count_key :: "string \<Rightarrow> string list \<Rightarrow> nat" where
  \<comment> \<open>how many of the lines are lines of key \<open>k\<close>\<close>
  "count_key k ls = length (filter (key_line k) ls)"

definition plain_line :: "string \<Rightarrow> bool" where
  \<comment> \<open>a line without line feed and dollar sign that does not start with three hyphens\<close>
  "plain_line l \<longleftrightarrow> LF \<notin> set l \<and> CHR ''$'' \<notin> set l \<and> \<not> starts_with ''---'' l"

definition rebuilt :: "string \<Rightarrow> string list \<Rightarrow> string list" where
  \<comment> \<open>the lines the normalizer rebuilds from the lines of the header block it read\<close>
  "rebuilt agentName ls = add_missing agentName (foldl fm_step fm_init ls)"

section \<open>Facts about the text functions\<close>

lemma starts_with_append:
  assumes "starts_with (p @ q) s"
  shows "starts_with p s"
proof -
  have "take (length p) s = take (length p) (take (length (p @ q)) s)"
    by (simp add: min_def)
  also have "\<dots> = take (length p) (p @ q)"
    using assms by (simp add: starts_with_def)
  finally show ?thesis by (simp add: starts_with_def)
qed

lemma no_dashes_no_frontmatter:
  assumes "\<not> starts_with ''---'' content"
  shows "match_frontmatter content = None"
proof -
  have "\<not> starts_with (''---'' @ ''\<newline>'') content"
    using assms starts_with_append by blast
  then show ?thesis by (simp add: match_frontmatter_def)
qed

lemma split_on_nonempty: "split_on d s \<noteq> []"
  by (induction s) (auto simp: Let_def)

lemma split_on_no_sep: "l \<in> set (split_on d s) \<Longrightarrow> d \<notin> set l"
proof (induction s arbitrary: l)
  case Nil
  then show ?case by simp
next
  case (Cons c cs)
  obtain x xs where r: "split_on d cs = x # xs"
    using split_on_nonempty by (cases "split_on d cs") auto
  with Cons show ?case by (auto simp: Let_def split: if_splits)
qed

lemma split_on_chars: "l \<in> set (split_on d s) \<Longrightarrow> set l \<subseteq> set s"
proof (induction s arbitrary: l)
  case Nil
  then show ?case by simp
next
  case (Cons c cs)
  obtain x xs where r: "split_on d cs = x # xs"
    using split_on_nonempty by (cases "split_on d cs") auto
  with Cons show ?case by (fastforce simp: Let_def split: if_splits)
qed

lemma split_on_line: "d \<notin> set l \<Longrightarrow> split_on d l = [l]"
  by (induction l) (auto simp: Let_def)

lemma split_on_append: "d \<notin> set l \<Longrightarrow> split_on d (l @ d # s) = l # split_on d s"
  by (induction l) (auto simp: Let_def)

lemma split_on_join:
  "ls \<noteq> [] \<Longrightarrow> \<forall>l \<in> set ls. d \<notin> set l \<Longrightarrow> split_on d (join [d] ls) = ls"
proof (induction ls)
  case Nil
  then show ?case by simp
next
  case (Cons x xs)
  show ?case
  proof (cases xs)
    case Nil
    with Cons.prems show ?thesis by (simp add: split_on_line)
  next
    case (Cons y ys)
    with Cons.IH Cons.prems have "split_on d (join [d] (y # ys)) = y # ys" by simp
    with Cons Cons.prems show ?thesis by (simp add: split_on_append)
  qed
qed

lemma join_chars: "set (join sep ls) \<subseteq> set sep \<union> \<Union> (set ` set ls)"
  by (induction sep ls rule: join.induct) auto

lemma expand_replacement_plain:
  "CHR ''$'' \<notin> set r \<Longrightarrow> expand_replacement m a r = r"
  by (induction m a r rule: expand_replacement.induct) auto

subsection \<open>Finding the closing delimiter\<close>

lemma find_delim_skip:
  "LF \<notin> set l \<Longrightarrow>
   find_sub ''\<newline>---'' (l @ s) = map_option (\<lambda>(b, a). (l @ b, a)) (find_sub ''\<newline>---'' s)"
proof (induction l)
  case Nil
  show ?case by (simp add: option.map_ident split_def)
next
  case (Cons c l)
  then have "\<not> starts_with ''\<newline>---'' (c # l @ s)" by (auto simp: starts_with_def)
  with Cons show ?case by (simp add: option.map_comp comp_def split_def)
qed

lemma starts_dashes_line:
  "LF \<notin> set l \<Longrightarrow> starts_with ''---'' (l @ LF # s) \<longleftrightarrow> starts_with ''---'' l"
proof (cases l)
  case Nil
  then show ?thesis by (simp add: starts_with_def)
next
  case l1: (Cons a l')
  assume a: "LF \<notin> set l"
  show ?thesis
  proof (cases l')
    case Nil
    with l1 a show ?thesis by (auto simp: starts_with_def)
  next
    case l2: (Cons b l'')
    show ?thesis
    proof (cases l'')
      case Nil
      with l1 l2 a show ?thesis by (auto simp: starts_with_def)
    next
      case (Cons c l''')
      with l1 l2 show ?thesis by (simp add: starts_with_def)
    qed
  qed
qed

lemma find_delim_join:
  assumes "ls \<noteq> []" "\<forall>l \<in> set ls. LF \<notin> set l" "\<forall>l \<in> set (tl ls). \<not> starts_with ''---'' l"
  shows "find_sub ''\<newline>---'' (join ''\<newline>'' ls @ ''\<newline>---'' @ after) = Some (join ''\<newline>'' ls, after)"
  using assms
proof (induction ls)
  case Nil
  then show ?case by simp
next
  case (Cons x xs)
  show ?case
  proof (cases xs)
    case Nil
    have "find_sub ''\<newline>---'' (''\<newline>---'' @ after) = Some ([], after)"
      by (simp add: starts_with_def)
    with Nil Cons.prems show ?thesis by (simp add: find_delim_skip)
  next
    case xs: (Cons y ys)
    let ?rest = "join ''\<newline>'' (y # ys) @ ''\<newline>---'' @ after"
    have ih: "find_sub ''\<newline>---'' ?rest = Some (join ''\<newline>'' (y # ys), after)"
      using Cons.IH Cons.prems xs
      by (metis list.distinct(1) list.sel(3) list.set_intros(2) set_subset_Cons subsetD tl_Nil list.set_sel(2))
    have ny: "\<not> starts_with ''---'' y" "LF \<notin> set y" using Cons.prems xs by auto
    have "\<exists>t. ?rest = y @ LF # t"
      by (cases ys) auto
    then obtain t where t: "?rest = y @ LF # t" by blast
    have nd: "\<not> starts_with ''---'' ?rest"
      unfolding t using ny starts_dashes_line by blast
    have "\<not> starts_with ''\<newline>---'' (LF # ?rest)"
      using nd by (auto simp: starts_with_def)
    then have "find_sub ''\<newline>---'' (LF # ?rest) = Some (LF # join ''\<newline>'' (y # ys), after)"
      using ih by simp
    moreover have "join ''\<newline>'' (x # xs) @ ''\<newline>---'' @ after = x @ LF # ?rest"
      using xs by simp
    moreover have "LF \<notin> set x" using Cons.prems by simp
    ultimately show ?thesis using xs by (simp add: find_delim_skip)
  qed
qed

subsection \<open>The loop over the header lines\<close>

lemma fm_loop:
  "foldl fm_step st ls =
     \<lparr> hasName = hasName st \<or> list_ex (key_line ''name'') (filter (\<lambda>l. \<not> dropped_key l) ls),
       hasDescription = hasDescription st \<or> list_ex (key_line ''description'') (filter (\<lambda>l. \<not> dropped_key l) ls),
       hasModel = hasModel st \<or> list_ex (key_line ''model'') (filter (\<lambda>l. \<not> dropped_key l) ls),
       fixedLines = fixedLines st @ map fix_quoted (filter (\<lambda>l. \<not> dropped_key l) ls) \<rparr>"
proof (induction ls arbitrary: st)
  case Nil
  show ?case by simp
next
  case (Cons l ls)
  show ?case
    unfolding foldl_Cons Cons.IH
    by (simp add: fm_step_def dropped_key_def)
qed

subsection \<open>Lines the quoted-value pattern matches\<close>

lemma field_not_space: "is_field_char c \<Longrightarrow> \<not> is_space c"
  by (auto simp: is_field_char_def is_space_def)

lemma starts_key_field:
  assumes "c \<notin> set k" "c \<notin> set f"
  shows "starts_with (k @ [c]) (f @ c # x) \<longleftrightarrow> k = f"
  using assms
proof (induction k arbitrary: f)
  case Nil
  then show ?case by (cases f) (auto simp: starts_with_def)
next
  case (Cons a k)
  show ?case
  proof (cases f)
    case Nil
    with Cons.prems show ?thesis by (auto simp: starts_with_def)
  next
    case (Cons b f')
    with Cons.prems Cons.IH[of f'] show ?thesis by (auto simp: starts_with_def)
  qed
qed

lemma match_quoted_shape:
  assumes "match_quoted line = Some (indent, field, v)"
  shows "\<exists>x. line = indent @ field @ CHR '':'' # x"
    and "list_all is_space indent" and "list_all is_field_char field" and "field \<noteq> []"
    and "set v \<subseteq> set line"
proof -
  let ?r1 = "dropWhile is_space line"
  from assms have i: "indent = takeWhile is_space line"
    and f: "field = takeWhile is_field_char ?r1" and fne: "field \<noteq> []"
    by (auto simp: match_quoted_def Let_def split: list.splits if_splits)
  from assms obtain r3 where r3: "dropWhile is_field_char ?r1 = CHR '':'' # r3"
    by (auto simp: match_quoted_def Let_def split: list.splits if_splits)
  have "line = indent @ ?r1" by (simp add: i)
  also have "?r1 = field @ dropWhile is_field_char ?r1" by (simp add: f)
  finally show "\<exists>x. line = indent @ field @ CHR '':'' # x" using r3 by auto
  show "list_all is_space indent" unfolding i list_all_iff by (auto dest: set_takeWhileD)
  show "list_all is_field_char field" unfolding f list_all_iff by (auto dest: set_takeWhileD)
  show "field \<noteq> []" by (rule fne)
  from assms obtain q r4 where r4: "dropWhile is_space r3 = q # r4"
    and v: "v = takeWhile (\<lambda>x. \<not> is_quote x) r4"
    using r3 by (auto simp: match_quoted_def Let_def split: list.splits if_splits)
  have "set v \<subseteq> set r4" unfolding v by (auto dest: set_takeWhileD)
  also have "\<dots> \<subseteq> set (dropWhile is_space r3)" unfolding r4 by auto
  also have "\<dots> \<subseteq> set r3" by (auto dest: set_dropWhileD)
  also have "\<dots> \<subseteq> set (dropWhile is_field_char ?r1)" unfolding r3 by auto
  also have "\<dots> \<subseteq> set line" by (auto dest!: set_dropWhileD)
  finally show "set v \<subseteq> set line" .
qed

lemma starts_dashes_stop:
  "c \<noteq> CHR ''-'' \<Longrightarrow> starts_with ''---'' (p @ c # x) \<longleftrightarrow> starts_with ''---'' p"
proof (cases p)
  case Nil
  assume "c \<noteq> CHR ''-''"
  with Nil show ?thesis by (simp add: starts_with_def)
next
  case p1: (Cons a p')
  assume c: "c \<noteq> CHR ''-''"
  show ?thesis
  proof (cases p')
    case Nil
    with p1 c show ?thesis by (auto simp: starts_with_def)
  next
    case p2: (Cons b p'')
    show ?thesis
    proof (cases p'')
      case Nil
      with p1 p2 c show ?thesis by (auto simp: starts_with_def)
    next
      case (Cons d p''')
      with p1 p2 show ?thesis by (simp add: starts_with_def)
    qed
  qed
qed

lemma colon_not_field: "\<not> is_field_char (CHR '':'')"
  by (simp add: is_field_char_def)

lemma key_line_shape:
  assumes "list_all is_space indent" "list_all is_field_char field" "field \<noteq> []"
    and "list_all is_field_char k"
  shows "key_line k (indent @ field @ CHR '':'' # x) \<longleftrightarrow> k = field"
proof -
  from assms(3) obtain a f' where f: "field = a # f'" by (cases field) auto
  with assms(2) have "\<not> is_space a" by (simp add: field_not_space)
  then have "dropWhile is_space (field @ CHR '':'' # x) = field @ CHR '':'' # x"
    by (simp add: f)
  moreover have "dropWhile is_space (indent @ (field @ CHR '':'' # x)) =
                 dropWhile is_space (field @ CHR '':'' # x)"
    using assms(1) by (intro dropWhile_append2) (simp add: list_all_iff)
  ultimately have dw: "dropWhile is_space (indent @ field @ CHR '':'' # x) = field @ CHR '':'' # x"
    by simp
  have nk: "CHR '':'' \<notin> set k"
    using assms(4) colon_not_field unfolding list_all_iff by blast
  have nf: "CHR '':'' \<notin> set field"
    using assms(2) colon_not_field unfolding list_all_iff by blast
  have "key_line k (indent @ field @ CHR '':'' # x) \<longleftrightarrow>
        starts_with (k @ [CHR '':'']) (field @ CHR '':'' # x)"
    unfolding key_line_def dw by simp
  also have "\<dots> \<longleftrightarrow> k = field"
    by (rule starts_key_field[OF nk nf])
  finally show ?thesis .
qed

lemma key_line_fix_quoted:
  assumes "list_all is_field_char k"
  shows "key_line k (fix_quoted line) \<longleftrightarrow> key_line k line"
proof (cases "match_quoted line")
  case None
  then show ?thesis by (simp add: fix_quoted_def)
next
  case (Some m)
  obtain indent field v where m: "m = (indent, field, v)" by (cases m) auto
  from match_quoted_shape[OF Some[unfolded m]] obtain x where
    l: "line = indent @ field @ CHR '':'' # x" and
    s: "list_all is_space indent" "list_all is_field_char field" "field \<noteq> []"
    by blast
  have "key_line k (indent @ field @ CHR '':'' # (CHR '' '' # v)) \<longleftrightarrow> key_line k line"
    unfolding l using key_line_shape[OF s assms] by simp
  then show ?thesis using Some m by (simp add: fix_quoted_def)
qed

lemma dashes_fix_quoted:
  "starts_with ''---'' (fix_quoted line) \<longleftrightarrow> starts_with ''---'' line"
proof (cases "match_quoted line")
  case None
  then show ?thesis by (simp add: fix_quoted_def)
next
  case (Some m)
  obtain indent field v where m: "m = (indent, field, v)" by (cases m) auto
  from match_quoted_shape[OF Some[unfolded m]] obtain x where
    l: "line = indent @ field @ CHR '':'' # x" by blast
  have "starts_with ''---'' ((indent @ field) @ CHR '':'' # (CHR '' '' # v))
        \<longleftrightarrow> starts_with ''---'' ((indent @ field) @ CHR '':'' # x)"
    by (simp only: starts_dashes_stop[of "CHR '':''", simplified])
  then show ?thesis using Some m l by (simp add: fix_quoted_def)
qed

lemma fix_quoted_chars: "set (fix_quoted line) \<subseteq> set line \<union> {CHR '':'', CHR '' ''}"
proof (cases "match_quoted line")
  case None
  then have "fix_quoted line = line" by (simp add: fix_quoted_def)
  then show ?thesis by auto
next
  case (Some m)
  obtain indent field v where m: "m = (indent, field, v)" by (cases m) auto
  from match_quoted_shape[OF Some[unfolded m]] obtain x where
    l: "line = indent @ field @ CHR '':'' # x" and v: "set v \<subseteq> set line"
    by blast
  have "set indent \<subseteq> set line"
    by (subst l) auto
  moreover have "set field \<subseteq> set line"
    by (subst l) auto
  ultimately have *: "set (indent @ field @ '': '' @ v) \<subseteq> set line \<union> {CHR '':'', CHR '' ''}"
    using v by auto
  show ?thesis
  proof (cases "needsQuotes v")
    case True
    then have "fix_quoted line = line" unfolding fix_quoted_def Some m by simp
    then show ?thesis by (simp add: subset_insertI2)
  next
    case False
    then have "fix_quoted line = indent @ field @ '': '' @ v"
      unfolding fix_quoted_def Some m by simp
    with * show ?thesis by (simp only:)
  qed
qed

subsection \<open>The rebuilt header block\<close>

lemma plain_fix_quoted: "plain_line l \<Longrightarrow> plain_line (fix_quoted l)"
  using fix_quoted_chars[of l] by (auto simp: plain_line_def dashes_fix_quoted)

lemma header_of_joined:
  assumes "ls \<noteq> []" "\<forall>l \<in> set ls. plain_line l"
  shows "header_lines (''---\<newline>'' @ join ''\<newline>'' ls @ ''\<newline>---'' @ after) = ls"
proof -
  have lf: "\<forall>l \<in> set ls. LF \<notin> set l" using assms(2) by (simp add: plain_line_def)
  have "\<forall>l \<in> set (tl ls). \<not> starts_with ''---'' l"
    using assms by (auto simp: plain_line_def dest: list.set_sel(2))
  from find_delim_join[OF assms(1) lf this]
  have "match_frontmatter (''---\<newline>'' @ join ''\<newline>'' ls @ ''\<newline>---'' @ after)
        = Some (join ''\<newline>'' ls, after)"
    by (simp add: match_frontmatter_def starts_with_def)
  then show ?thesis
    using split_on_join[OF assms(1) lf] by (simp add: header_lines_def)
qed

lemma join_plain_no_dollar:
  assumes "\<forall>l \<in> set ls. plain_line l"
  shows "CHR ''$'' \<notin> set (''---\<newline>'' @ join ''\<newline>'' ls @ ''\<newline>---'')"
proof -
  have "CHR ''$'' \<notin> set (join ''\<newline>'' ls)"
    using join_chars[of "''\<newline>''" ls] assms by (auto simp: plain_line_def)
  then show ?thesis by simp
qed

lemma key_line_unique:
  assumes "list_all is_field_char k" "list_all is_field_char k'" "key_line k l" "key_line k' l"
  shows "k = k'"
proof -
  let ?r = "dropWhile is_space l"
  have nk: "CHR '':'' \<notin> set k" and nk': "CHR '':'' \<notin> set k'"
    using assms(1,2) colon_not_field unfolding list_all_iff by blast+
  from assms(3) have "?r = (k @ '':'') @ drop (length (k @ '':'')) ?r"
    unfolding key_line_def starts_with_def by (metis append_take_drop_id)
  then obtain x where r: "?r = k @ CHR '':'' # x" by auto
  from assms(4) have "starts_with (k' @ [CHR '':'']) (k @ CHR '':'' # x)"
    unfolding key_line_def r by simp
  with starts_key_field[OF nk' nk] show ?thesis by simp
qed

lemma field_keys:
  "list_all is_field_char ''name''" "list_all is_field_char ''description''"
  "list_all is_field_char ''model''" "list_all is_field_char ''tools''"
  "list_all is_field_char ''allowed-tools''"
  by (simp_all add: is_field_char_def)

lemma kept_dropped:
  assumes "list_all is_field_char k" "k = ''tools'' \<or> k = ''allowed-tools''"
  shows "filter (key_line k) (map fix_quoted (filter (\<lambda>l. \<not> dropped_key l) ls)) = []"
proof -
  have "key_line k l \<Longrightarrow> dropped_key l" for l
    using assms(2) unfolding dropped_key_def by blast
  then have "filter (key_line k) (filter (\<lambda>l. \<not> dropped_key l) ls) = []"
    by (induction ls) auto
  then show ?thesis
    by (simp add: filter_map comp_def key_line_fix_quoted[OF assms(1)])
qed

lemma added_name_keys:
  "key_line ''name'' (''name: '' @ a)" "\<not> key_line ''description'' (''name: '' @ a)"
  "\<not> key_line ''model'' (''name: '' @ a)" "\<not> key_line ''tools'' (''name: '' @ a)"
  "\<not> key_line ''allowed-tools'' (''name: '' @ a)"
  by (simp_all add: key_line_def starts_with_def is_space_def)

lemma added_description_keys:
  "\<not> key_line ''name'' (''description: Agent for '' @ a)"
  "key_line ''description'' (''description: Agent for '' @ a)"
  "\<not> key_line ''model'' (''description: Agent for '' @ a)"
  "\<not> key_line ''tools'' (''description: Agent for '' @ a)"
  "\<not> key_line ''allowed-tools'' (''description: Agent for '' @ a)"
  by (simp_all add: key_line_def starts_with_def is_space_def)

lemma added_model_keys:
  "\<not> key_line ''name'' ''model: sonnet''" "\<not> key_line ''description'' ''model: sonnet''"
  "key_line ''model'' ''model: sonnet''" "\<not> key_line ''tools'' ''model: sonnet''"
  "\<not> key_line ''allowed-tools'' ''model: sonnet''"
  by (simp_all add: key_line_def starts_with_def is_space_def)

lemma added_plain:
  assumes "CHR ''$'' \<notin> set a" "LF \<notin> set a"
  shows "plain_line (''name: '' @ a)" "plain_line (''description: Agent for '' @ a)"
    "plain_line ''model: sonnet''"
  using assms by (simp_all add: plain_line_def starts_with_def)

lemma list_ex_count: "list_ex P xs \<longleftrightarrow> 0 < length (filter P xs)"
  by (induction xs) auto

lemma kept_count:
  assumes "k = ''name'' \<or> k = ''description'' \<or> k = ''model''"
  shows "count_key k (map fix_quoted (filter (\<lambda>l. \<not> dropped_key l) ls)) = count_key k ls"
proof -
  have fk: "list_all is_field_char k" and nt: "k \<noteq> ''tools''" "k \<noteq> ''allowed-tools''"
    using assms field_keys by auto
  have nd: "key_line k l \<Longrightarrow> \<not> dropped_key l" for l
    using key_line_unique[OF fk field_keys(4)] key_line_unique[OF fk field_keys(5)] nt
    unfolding dropped_key_def by blast
  show ?thesis
    by (induction ls) (auto simp: count_key_def key_line_fix_quoted[OF fk] nd)
qed

lemma kept_has:
  assumes "k = ''name'' \<or> k = ''description'' \<or> k = ''model''"
  shows "list_ex (key_line k) (filter (\<lambda>l. \<not> dropped_key l) ls) \<longleftrightarrow> 0 < count_key k ls"
proof -
  have fk: "list_all is_field_char k" and nt: "k \<noteq> ''tools''" "k \<noteq> ''allowed-tools''"
    using assms field_keys by auto
  have nd: "key_line k l \<Longrightarrow> \<not> dropped_key l" for l
    using key_line_unique[OF fk field_keys(4)] key_line_unique[OF fk field_keys(5)] nt
    unfolding dropped_key_def by blast
  show ?thesis
    by (induction ls) (auto simp: count_key_def nd)
qed

lemmas added_keys =
  added_name_keys[unfolded append_Cons append_Nil]
  added_description_keys[unfolded append_Cons append_Nil]
  added_model_keys

lemma rebuilt_count:
  assumes "k = ''name'' \<or> k = ''description'' \<or> k = ''model''"
  shows "count_key k (rebuilt a ls) = max 1 (count_key k ls)"
proof -
  let ?kept = "map fix_quoted (filter (\<lambda>l. \<not> dropped_key l) ls)"
  have n: "count_key ''name'' ?kept = count_key ''name'' ls"
    and d: "count_key ''description'' ?kept = count_key ''description'' ls"
    and m: "count_key ''model'' ?kept = count_key ''model'' ls"
    by (simp_all add: kept_count)
  have hn: "list_ex (key_line ''name'') (filter (\<lambda>l. \<not> dropped_key l) ls) \<longleftrightarrow> 0 < count_key ''name'' ls"
    and hd: "list_ex (key_line ''description'') (filter (\<lambda>l. \<not> dropped_key l) ls) \<longleftrightarrow> 0 < count_key ''description'' ls"
    and hm: "list_ex (key_line ''model'') (filter (\<lambda>l. \<not> dropped_key l) ls) \<longleftrightarrow> 0 < count_key ''model'' ls"
    by (simp_all add: kept_has)
  have c: "count_key k (xs @ ys) = count_key k xs + count_key k ys"
    "count_key k (x # xs) = (if key_line k x then 1 else 0) + count_key k xs"
    "count_key k [] = 0" for k x xs ys
    by (simp_all add: count_key_def)
  from assms show ?thesis
  proof (elim disjE)
    assume "k = ''name''"
    then show ?thesis
      using n unfolding rebuilt_def fm_loop add_missing_def
      by (simp add: fm_init_def hn hd hm c Let_def added_keys)
  next
    assume "k = ''description''"
    then show ?thesis
      using d unfolding rebuilt_def fm_loop add_missing_def
      by (simp add: fm_init_def hn hd hm c Let_def added_keys)
  next
    assume "k = ''model''"
    then show ?thesis
      using m unfolding rebuilt_def fm_loop add_missing_def
      by (simp add: fm_init_def hn hd hm c Let_def added_keys)
  qed
qed

lemma rebuilt_dropped:
  assumes "k = ''tools'' \<or> k = ''allowed-tools''"
  shows "count_key k (rebuilt a ls) = 0"
proof -
  let ?kept = "map fix_quoted (filter (\<lambda>l. \<not> dropped_key l) ls)"
  have "list_all is_field_char k" using assms field_keys by auto
  from kept_dropped[OF this assms] have z: "count_key k ?kept = 0"
    by (simp add: count_key_def)
  have c: "count_key k (xs @ ys) = count_key k xs + count_key k ys"
    "count_key k (x # xs) = (if key_line k x then 1 else 0) + count_key k xs"
    "count_key k [] = 0" for k x xs ys
    by (simp_all add: count_key_def)
  from assms show ?thesis
  proof
    assume "k = ''tools''"
    then show ?thesis
      using z unfolding rebuilt_def fm_loop add_missing_def
      by (simp add: fm_init_def c Let_def added_keys)
  next
    assume "k = ''allowed-tools''"
    then show ?thesis
      using z unfolding rebuilt_def fm_loop add_missing_def
      by (simp add: fm_init_def c Let_def added_keys)
  qed
qed

lemma rebuilt_nonempty: "rebuilt a ls \<noteq> []"
  unfolding rebuilt_def fm_loop add_missing_def
  by (auto simp: fm_init_def Let_def list_ex_iff filter_empty_conv)

lemma rebuilt_plain:
  assumes "\<forall>l \<in> set ls. plain_line l" "CHR ''$'' \<notin> set a" "LF \<notin> set a"
  shows "\<forall>l \<in> set (rebuilt a ls). plain_line l"
  using assms(1) added_plain[OF assms(2,3), unfolded append_Cons append_Nil]
  unfolding rebuilt_def fm_loop add_missing_def
  by (auto simp: fm_init_def Let_def plain_fix_quoted)

lemma fixed_header_lines:
  assumes h: "\<forall>l \<in> set (header_lines content). CHR ''$'' \<notin> set l \<and> \<not> starts_with ''---'' l"
    and a: "CHR ''$'' \<notin> set agentName" "LF \<notin> set agentName"
  shows "header_lines (fixFrontmatterFormat content agentName) = rebuilt agentName (header_lines content)"
proof (cases "match_frontmatter content")
  case None
  let ?ls = "rebuilt agentName []"
  have ls: "?ls = [''name: '' @ agentName, ''description: Agent for '' @ agentName, ''model: sonnet'']"
    by (simp add: rebuilt_def add_missing_def fm_init_def)
  have "fixFrontmatterFormat content agentName =
        ''---\<newline>'' @ join ''\<newline>'' ?ls @ ''\<newline>---'' @ (''\<newline>\<newline>'' @ content)"
    unfolding ls using None by (simp add: fixFrontmatterFormat_def)
  moreover have "\<forall>l \<in> set ?ls. plain_line l"
    using rebuilt_plain[of "[]" agentName] a by simp
  ultimately have "header_lines (fixFrontmatterFormat content agentName) = ?ls"
    using header_of_joined[OF rebuilt_nonempty] by simp
  then show ?thesis using None by (simp add: header_lines_def)
next
  case (Some m)
  obtain fm after where m: "m = (fm, after)" by (cases m) auto
  have hl: "header_lines content = split_on LF fm"
    using Some m by (simp add: header_lines_def)
  let ?ls = "rebuilt agentName (split_on LF fm)"
  have "\<forall>l \<in> set (split_on LF fm). plain_line l"
    using h split_on_no_sep[of _ LF fm] unfolding hl plain_line_def by blast
  then have pl: "\<forall>l \<in> set ?ls. plain_line l"
    using rebuilt_plain a by blast
  have "fixFrontmatterFormat content agentName =
        expand_replacement (''---\<newline>'' @ fm @ ''\<newline>---'') after
          (''---\<newline>'' @ join ''\<newline>'' ?ls @ ''\<newline>---'') @ after"
    using Some m by (simp add: fixFrontmatterFormat_def replace_frontmatter_def rebuilt_def)
  also have "\<dots> = ''---\<newline>'' @ join ''\<newline>'' ?ls @ ''\<newline>---'' @ after"
    using expand_replacement_plain[OF join_plain_no_dollar[OF pl]] by simp
  finally have "header_lines (fixFrontmatterFormat content agentName) = ?ls"
    using header_of_joined[OF rebuilt_nonempty pl] by simp
  then show ?thesis by (simp add: hl)
qed

subsection \<open>Normalizing a normalized text\<close>

lemma quote_not_space: "is_quote c \<Longrightarrow> \<not> is_space c"
  by (auto simp: is_quote_def is_space_def)

lemma trim_fixed_head:
  assumes "trim v = v" "v \<noteq> []"
  shows "\<not> is_space (hd v)"
proof
  assume sp: "is_space (hd v)"
  from assms(2) obtain c r where v: "v = c # r" by (cases v) auto
  have "length (trim v) \<le> length (dropWhile is_space v)"
    unfolding trim_def using length_dropWhile_le[of is_space "rev (dropWhile is_space v)"] by simp
  also have "length (dropWhile is_space v) \<le> length r"
    using sp v length_dropWhile_le[of is_space r] by simp
  finally show False using assms(1) v by simp
qed

lemma match_quoted_no_quote:
  assumes "list_all is_space indent" "list_all is_field_char field" "field \<noteq> []"
    and "dropWhile is_space x = [] \<or> \<not> is_quote (hd (dropWhile is_space x))"
  shows "match_quoted (indent @ field @ CHR '':'' # x) = None"
proof -
  let ?l = "indent @ field @ CHR '':'' # x"
  from assms(3) obtain a f' where f: "field = a # f'" by (cases field) auto
  with assms(2) have na: "\<not> is_space a" by (simp add: field_not_space)
  have i: "\<forall>y \<in> set indent. is_space y" using assms(1) by (simp add: list_all_iff)
  have dw: "dropWhile is_space ?l = field @ CHR '':'' # x"
    using i na f by (simp add: dropWhile_append2)
  have fc: "\<forall>y \<in> set field. is_field_char y" using assms(2) by (simp add: list_all_iff)
  have tf: "takeWhile is_field_char (field @ CHR '':'' # x) = field"
    using fc colon_not_field by (simp add: takeWhile_append2)
  have df: "dropWhile is_field_char (field @ CHR '':'' # x) = CHR '':'' # x"
    using fc colon_not_field by (simp add: dropWhile_append2)
  show ?thesis
  proof (cases "dropWhile is_space x")
    case Nil
    show ?thesis
      unfolding match_quoted_def dw tf df Let_def using assms(3) by (simp add: Nil)
  next
    case (Cons q r4)
    with assms(4) have "\<not> is_quote q" by simp
    then show ?thesis
      unfolding match_quoted_def dw tf df Let_def using assms(3) by (simp add: Cons)
  qed
qed

lemma match_quoted_unquoted:
  assumes "list_all is_space indent" "list_all is_field_char field" "field \<noteq> []"
    and "v \<noteq> []" "\<not> is_quote (hd v)" "\<not> is_space (hd v)"
  shows "match_quoted (indent @ field @ '': '' @ v) = None"
proof -
  from assms(4) obtain c r where v: "v = c # r" by (cases v) auto
  with assms(5,6) have c: "\<not> is_quote c" "\<not> is_space c" by simp_all
  have sp: "is_space (CHR '' '')" by (simp add: is_space_def)
  have "dropWhile is_space (CHR '' '' # v) = v" using v c sp by simp
  with assms(5) have "dropWhile is_space (CHR '' '' # v) = []
      \<or> \<not> is_quote (hd (dropWhile is_space (CHR '' '' # v)))" by simp
  from match_quoted_no_quote[OF assms(1,2,3) this] show ?thesis by simp
qed

lemma fix_quoted_idem: "fix_quoted (fix_quoted line) = fix_quoted line"
proof (cases "match_quoted line")
  case None
  then show ?thesis by (simp add: fix_quoted_def)
next
  case (Some m)
  obtain indent field v where m: "m = (indent, field, v)" by (cases m) auto
  show ?thesis
  proof (cases "needsQuotes v")
    case True
    with Some m have "fix_quoted line = line" by (simp add: fix_quoted_def)
    then show ?thesis by simp
  next
    case False
    with Some m have fq: "fix_quoted line = indent @ field @ '': '' @ v"
      by (simp add: fix_quoted_def)
    from match_quoted_shape[OF Some[unfolded m]] have
      s: "list_all is_space indent" "list_all is_field_char field" "field \<noteq> []" by blast+
    from Some m have vne: "v \<noteq> []" and vq: "\<forall>x \<in> set v. \<not> is_quote x"
      by (auto simp: match_quoted_def Let_def split: list.splits if_splits dest: set_takeWhileD)
    from False have "trim v = v" by (simp add: needsQuotes_def)
    from trim_fixed_head[OF this vne] have ns: "\<not> is_space (hd v)" .
    from vne vq have nq: "\<not> is_quote (hd v)" by (cases v) auto
    from match_quoted_unquoted[OF s vne nq ns] show ?thesis
      unfolding fq by (simp add: fix_quoted_def)
  qed
qed

lemma fix_quoted_added:
  assumes "\<forall>x \<in> set a. \<not> is_quote x"
  shows "fix_quoted (''name: '' @ a) = ''name: '' @ a"
    and "fix_quoted (''description: Agent for '' @ a) = ''description: Agent for '' @ a"
    and "fix_quoted ''model: sonnet'' = ''model: sonnet''"
proof -
  have sp: "is_space (CHR '' '')" by (simp add: is_space_def)
  have "dropWhile is_space a = [] \<or> \<not> is_quote (hd (dropWhile is_space a))"
    using assms by (metis hd_in_set set_dropWhileD)
  then have "dropWhile is_space (CHR '' '' # a) = []
      \<or> \<not> is_quote (hd (dropWhile is_space (CHR '' '' # a)))"
    using sp by simp
  from match_quoted_no_quote[of "[]" "''name''", OF _ field_keys(1) _ this]
  have "match_quoted (''name: '' @ a) = None" by simp
  then show "fix_quoted (''name: '' @ a) = ''name: '' @ a" by (simp add: fix_quoted_def)
  have "dropWhile is_space ('' Agent for '' @ a) = []
      \<or> \<not> is_quote (hd (dropWhile is_space ('' Agent for '' @ a)))"
    by (simp add: is_space_def is_quote_def)
  from match_quoted_no_quote[of "[]" "''description''", OF _ field_keys(2) _ this]
  have "match_quoted (''description: Agent for '' @ a) = None" by simp
  then show "fix_quoted (''description: Agent for '' @ a) = ''description: Agent for '' @ a"
    by (simp add: fix_quoted_def)
  have "dropWhile is_space '' sonnet'' = []
      \<or> \<not> is_quote (hd (dropWhile is_space '' sonnet''))"
    by (simp add: is_space_def is_quote_def)
  from match_quoted_no_quote[of "[]" "''model''", OF _ field_keys(3) _ this]
  have "match_quoted ''model: sonnet'' = None" by simp
  then show "fix_quoted ''model: sonnet'' = ''model: sonnet''" by (simp add: fix_quoted_def)
qed

lemma rebuilt_fixed:
  assumes "\<forall>x \<in> set a. \<not> is_quote x" "l \<in> set (rebuilt a ls)"
  shows "fix_quoted l = l"
proof -
  let ?kept = "map fix_quoted (filter (\<lambda>l. \<not> dropped_key l) ls)"
  from assms(2) have "l \<in> set ?kept \<or> l = ''name: '' @ a
      \<or> l = ''description: Agent for '' @ a \<or> l = ''model: sonnet''"
    unfolding rebuilt_def fm_loop add_missing_def
    by (auto simp: fm_init_def Let_def split: if_splits)
  then show ?thesis
    using fix_quoted_added[OF assms(1)] fix_quoted_idem by auto
qed

lemma count_zero_none: "count_key k ls = 0 \<Longrightarrow> l \<in> set ls \<Longrightarrow> \<not> key_line k l"
  by (auto simp: count_key_def filter_empty_conv)

lemma rebuilt_rebuilt:
  assumes "\<forall>x \<in> set a. \<not> is_quote x"
  shows "rebuilt a (rebuilt a ls) = rebuilt a ls"
proof -
  let ?L = "rebuilt a ls"
  have nd: "\<not> dropped_key l" if "l \<in> set ?L" for l
    using count_zero_none[OF rebuilt_dropped that, of "''tools''" ]
      count_zero_none[OF rebuilt_dropped that, of "''allowed-tools''"]
    by (simp add: dropped_key_def)
  then have k: "filter (\<lambda>l. \<not> dropped_key l) ?L = ?L" by (simp add: filter_id_conv)
  have m: "map fix_quoted ?L = ?L"
    using rebuilt_fixed[OF assms] by (simp add: map_idI)
  have "0 < count_key ''name'' ?L" "0 < count_key ''description'' ?L" "0 < count_key ''model'' ?L"
    by (simp_all add: rebuilt_count)
  then have h: "list_ex (key_line ''name'') ?L" "list_ex (key_line ''description'') ?L"
    "list_ex (key_line ''model'') ?L"
    by (simp_all add: list_ex_count count_key_def)
  have "foldl fm_step fm_init ?L =
        \<lparr> hasName = True, hasDescription = True, hasModel = True, fixedLines = ?L \<rparr>"
    unfolding fm_loop k m using h by (simp add: fm_init_def)
  then show ?thesis
    by (subst (1) rebuilt_def) (simp add: add_missing_def)
qed

lemma normalized_shape:
  assumes h: "\<forall>l \<in> set (header_lines txt). CHR ''$'' \<notin> set l \<and> \<not> starts_with ''---'' l"
    and a: "CHR ''$'' \<notin> set agentName" "LF \<notin> set agentName"
  shows "\<exists>post. fixFrontmatterFormat txt agentName =
           ''---\<newline>'' @ join ''\<newline>'' (rebuilt agentName (header_lines txt)) @ ''\<newline>---'' @ post"
proof (cases "match_frontmatter txt")
  case None
  have "rebuilt agentName [] =
        [''name: '' @ agentName, ''description: Agent for '' @ agentName, ''model: sonnet'']"
    by (simp add: rebuilt_def add_missing_def fm_init_def)
  then have "fixFrontmatterFormat txt agentName =
        ''---\<newline>'' @ join ''\<newline>'' (rebuilt agentName []) @ ''\<newline>---'' @ (''\<newline>\<newline>'' @ txt)"
    using None by (simp add: fixFrontmatterFormat_def)
  then show ?thesis using None by (auto simp: header_lines_def)
next
  case (Some m)
  obtain fm post where m: "m = (fm, post)" by (cases m) auto
  have hl: "header_lines txt = split_on LF fm"
    using Some m by (simp add: header_lines_def)
  let ?ls = "rebuilt agentName (split_on LF fm)"
  have "\<forall>l \<in> set (split_on LF fm). plain_line l"
    using h split_on_no_sep[of _ LF fm] unfolding hl plain_line_def by blast
  then have pl: "\<forall>l \<in> set ?ls. plain_line l"
    using rebuilt_plain a by blast
  have "fixFrontmatterFormat txt agentName =
        expand_replacement (''---\<newline>'' @ fm @ ''\<newline>---'') post
          (''---\<newline>'' @ join ''\<newline>'' ?ls @ ''\<newline>---'') @ post"
    using Some m by (simp add: fixFrontmatterFormat_def replace_frontmatter_def rebuilt_def)
  also have "\<dots> = ''---\<newline>'' @ join ''\<newline>'' ?ls @ ''\<newline>---'' @ post"
    using expand_replacement_plain[OF join_plain_no_dollar[OF pl]] by simp
  finally show ?thesis unfolding hl by blast
qed

lemma fixFrontmatterFormat_idempotent_plain:
  assumes h: "\<forall>l \<in> set (header_lines txt). CHR ''$'' \<notin> set l \<and> \<not> starts_with ''---'' l"
    and a: "CHR ''$'' \<notin> set agentName" "LF \<notin> set agentName"
    and q: "\<forall>x \<in> set agentName. \<not> is_quote x"
  shows "fixFrontmatterFormat (fixFrontmatterFormat txt agentName) agentName =
         fixFrontmatterFormat txt agentName"
proof -
  let ?out = "fixFrontmatterFormat txt agentName"
  let ?L = "rebuilt agentName (header_lines txt)"
  from normalized_shape[OF h a] obtain post where
    out: "?out = ''---\<newline>'' @ join ''\<newline>'' ?L @ ''\<newline>---'' @ post" by blast
  have hl: "header_lines ?out = ?L" by (rule fixed_header_lines[OF h a])
  have pl: "\<forall>l \<in> set ?L. plain_line l"
  proof -
    have "\<forall>l \<in> set (header_lines txt). plain_line l"
    proof (cases "match_frontmatter txt")
      case None
      then show ?thesis by (simp add: header_lines_def)
    next
      case (Some m)
      obtain fm p where "m = (fm, p)" by (cases m) auto
      with Some have "header_lines txt = split_on LF fm" by (simp add: header_lines_def)
      with h split_on_no_sep[of _ LF fm] show ?thesis unfolding plain_line_def by metis
    qed
    then show ?thesis using rebuilt_plain a by blast
  qed
  have h': "\<forall>l \<in> set (header_lines ?out). CHR ''$'' \<notin> set l \<and> \<not> starts_with ''---'' l"
    unfolding hl using pl by (simp add: plain_line_def)
  from normalized_shape[OF h' a] obtain post' where
    out2: "fixFrontmatterFormat ?out agentName =
           ''---\<newline>'' @ join ''\<newline>'' (rebuilt agentName (header_lines ?out)) @ ''\<newline>---'' @ post'"
    by blast
  have same: "rebuilt agentName (header_lines ?out) = ?L"
    unfolding hl by (rule rebuilt_rebuilt[OF q])
  have m1: "match_frontmatter ?out = Some (join ''\<newline>'' ?L, post)"
  proof -
    have lf: "\<forall>l \<in> set ?L. LF \<notin> set l" using pl by (simp add: plain_line_def)
    have "\<forall>l \<in> set (tl ?L). \<not> starts_with ''---'' l"
      using pl by (auto simp: plain_line_def dest: list.set_sel(2)[OF rebuilt_nonempty])
    from find_delim_join[OF rebuilt_nonempty lf this]
    show ?thesis unfolding out by (simp add: match_frontmatter_def starts_with_def)
  qed
  have "fixFrontmatterFormat ?out agentName =
        expand_replacement (''---\<newline>'' @ join ''\<newline>'' ?L @ ''\<newline>---'') post
          (''---\<newline>'' @ join ''\<newline>'' (rebuilt agentName (split_on LF (join ''\<newline>'' ?L))) @ ''\<newline>---'') @ post"
    using m1 by (simp add: fixFrontmatterFormat_def replace_frontmatter_def rebuilt_def)
  moreover have "split_on LF (join ''\<newline>'' ?L) = header_lines ?out"
    using m1 by (simp add: header_lines_def)
  ultimately have "fixFrontmatterFormat ?out agentName =
        expand_replacement (''---\<newline>'' @ join ''\<newline>'' ?L @ ''\<newline>---'') post
          (''---\<newline>'' @ join ''\<newline>'' ?L @ ''\<newline>---'') @ post"
    using same by simp
  also have "\<dots> = ''---\<newline>'' @ join ''\<newline>'' ?L @ ''\<newline>---'' @ post"
    using expand_replacement_plain[OF join_plain_no_dollar[OF pl]] by simp
  finally show ?thesis using out by simp
qed

section \<open>Claims about the frontmatter normalizer\<close>

text \<open>
  Claim C4. A text in which the normalizer finds no header block (the pattern
  \<open>/^---\n([\s\S]*?)\n---/\<close> does not match, which by \<open>no_dashes_no_frontmatter\<close> covers
  every text that does not start with three hyphens) is returned by
  \<open>fixFrontmatterFormat\<close> with base name \<open>reviewer\<close> as the synthesized block followed by
  the text itself, unchanged. The block is the header block of the result: read back, its
  lines are \<open>name: reviewer\<close>, the generated description and \<open>model: sonnet\<close>, and what
  follows it is a blank line and the original text.
\<close>

theorem fixFrontmatterFormat_without_header:
  assumes "match_frontmatter content = None"
  shows "fixFrontmatterFormat content ''reviewer'' =
           ''---\<newline>name: reviewer\<newline>description: Agent for reviewer\<newline>model: sonnet\<newline>---\<newline>\<newline>'' @ content
         \<and> match_frontmatter (fixFrontmatterFormat content ''reviewer'') =
           Some (''name: reviewer\<newline>description: Agent for reviewer\<newline>model: sonnet'', ''\<newline>\<newline>'' @ content)
         \<and> header_lines (fixFrontmatterFormat content ''reviewer'') =
           [''name: reviewer'', ''description: Agent for reviewer'', ''model: sonnet'']"
proof -
  have out: "fixFrontmatterFormat content ''reviewer'' =
           ''---\<newline>name: reviewer\<newline>description: Agent for reviewer\<newline>model: sonnet\<newline>---\<newline>\<newline>'' @ content"
    using assms by (simp add: fixFrontmatterFormat_def)
  have hdr: "match_frontmatter (fixFrontmatterFormat content ''reviewer'') =
           Some (''name: reviewer\<newline>description: Agent for reviewer\<newline>model: sonnet'', ''\<newline>\<newline>'' @ content)"
    unfolding out by (simp add: match_frontmatter_def starts_with_def)
  have "header_lines (fixFrontmatterFormat content ''reviewer'') =
           [''name: reviewer'', ''description: Agent for reviewer'', ''model: sonnet'']"
    unfolding header_lines_def hdr by simp
  with out hdr show ?thesis by simp
qed

theorem fixFrontmatterFormat_without_header_witness:
  "match_frontmatter ''# Reviewer\<newline>Checks code.'' = None
   \<and> fixFrontmatterFormat ''# Reviewer\<newline>Checks code.'' ''reviewer'' =
       ''---\<newline>name: reviewer\<newline>description: Agent for reviewer\<newline>model: sonnet\<newline>---\<newline>\<newline># Reviewer\<newline>Checks code.''"
proof -
  have h: "match_frontmatter ''# Reviewer\<newline>Checks code.'' = None"
    by (simp add: match_frontmatter_def starts_with_def)
  show ?thesis using h fixFrontmatterFormat_without_header [OF h] by simp
qed

text \<open>
  Claim C3, as amended. The normalizer never removes a second \<open>name\<close>, \<open>description\<close> or
  \<open>model\<close> line: it only adds the ones that are missing. So the header block of the result
  has, for each of the three keys, as many lines as the header block of the input had, and
  one where the input had none; it has exactly one of each when the input had at most one.
  No \<open>tools\<close> and no \<open>allowed-tools\<close> line is left. This is stated for the header block
  read back from the returned text, for inputs whose header lines hold no dollar sign
  (the final \<open>replace\<close> would expand it) and do not start with three hyphens (such a line
  would close the block early), and for a base name without dollar sign and line feed.
\<close>

theorem fixFrontmatterFormat_header_keys:
  assumes "\<forall>l \<in> set (header_lines content). CHR ''$'' \<notin> set l \<and> \<not> starts_with ''---'' l"
    and "CHR ''$'' \<notin> set agentName" and "LF \<notin> set agentName"
  shows "count_key ''name'' (header_lines (fixFrontmatterFormat content agentName))
           = max 1 (count_key ''name'' (header_lines content))
       \<and> count_key ''description'' (header_lines (fixFrontmatterFormat content agentName))
           = max 1 (count_key ''description'' (header_lines content))
       \<and> count_key ''model'' (header_lines (fixFrontmatterFormat content agentName))
           = max 1 (count_key ''model'' (header_lines content))
       \<and> count_key ''tools'' (header_lines (fixFrontmatterFormat content agentName)) = 0
       \<and> count_key ''allowed-tools'' (header_lines (fixFrontmatterFormat content agentName)) = 0"
  unfolding fixed_header_lines[OF assms]
  by (simp add: rebuilt_count rebuilt_dropped)

theorem fixFrontmatterFormat_header_keys_witness:
  "count_key ''name'' (header_lines (fixFrontmatterFormat
      ''---\<newline>description: 'Reviews code'\<newline>tools: Read, Grep\<newline>---\<newline>You review.'' ''reviewer'')) = 1
   \<and> count_key ''description'' (header_lines (fixFrontmatterFormat
      ''---\<newline>description: 'Reviews code'\<newline>tools: Read, Grep\<newline>---\<newline>You review.'' ''reviewer'')) = 1
   \<and> count_key ''model'' (header_lines (fixFrontmatterFormat
      ''---\<newline>description: 'Reviews code'\<newline>tools: Read, Grep\<newline>---\<newline>You review.'' ''reviewer'')) = 1
   \<and> count_key ''tools'' (header_lines (fixFrontmatterFormat
      ''---\<newline>description: 'Reviews code'\<newline>tools: Read, Grep\<newline>---\<newline>You review.'' ''reviewer'')) = 0"
proof -
  let ?c = "''---\<newline>description: 'Reviews code'\<newline>tools: Read, Grep\<newline>---\<newline>You review.''"
  have h1: "\<forall>l \<in> set (header_lines ?c). CHR ''$'' \<notin> set l \<and> \<not> starts_with ''---'' l"
    by code_simp
  have h2: "CHR ''$'' \<notin> set ''reviewer''" and h3: "LF \<notin> set ''reviewer''" by simp_all
  have c: "count_key ''name'' (header_lines ?c) = 0" "count_key ''description'' (header_lines ?c) = 1"
    "count_key ''model'' (header_lines ?c) = 0"
    by code_simp+
  show ?thesis
    using fixFrontmatterFormat_header_keys[OF h1 h2 h3] c by simp
qed

text \<open>
  The claim as it was stated, exactly one \<open>name\<close> line after normalization, fails on a
  header block with two: the text is returned as it is, with both.
\<close>

theorem fixFrontmatterFormat_keeps_duplicates:
  "fixFrontmatterFormat ''---\<newline>name: a\<newline>name: b\<newline>description: d\<newline>model: sonnet\<newline>---\<newline>x'' ''reviewer''
     = ''---\<newline>name: a\<newline>name: b\<newline>description: d\<newline>model: sonnet\<newline>---\<newline>x''
   \<and> count_key ''name'' (header_lines (fixFrontmatterFormat
        ''---\<newline>name: a\<newline>name: b\<newline>description: d\<newline>model: sonnet\<newline>---\<newline>x'' ''reviewer'')) = 2"
  by code_simp

text \<open>
  Claim C2. Normalizing twice is not always normalizing once. The replacement string of
  the final \<open>replace\<close> is built from the header lines, and \<open>replace\<close> reads \<open>$$\<close> in it as
  one dollar sign: a description that ends in four dollar signs comes back with two, and
  from a second run with one. Without dollar signs the two agree
  (\<open>fixFrontmatterFormat_idempotent_plain\<close>: no dollar sign in the header lines and in the
  base name, no header line that starts with three hyphens, no line feed and no quote in
  the base name).
\<close>

theorem fixFrontmatterFormat_twice_differs:
  "fixFrontmatterFormat ''---\<newline>name: a\<newline>description: pays $$$$\<newline>model: sonnet\<newline>---\<newline>x'' ''a''
     = ''---\<newline>name: a\<newline>description: pays $$\<newline>model: sonnet\<newline>---\<newline>x''
   \<and> fixFrontmatterFormat (fixFrontmatterFormat
        ''---\<newline>name: a\<newline>description: pays $$$$\<newline>model: sonnet\<newline>---\<newline>x'' ''a'') ''a''
     = ''---\<newline>name: a\<newline>description: pays $\<newline>model: sonnet\<newline>---\<newline>x''"
  by code_simp

section \<open>Markdown scanner\<close>

subsection \<open>Title and description of a markdown file\<close>

text \<open>
  \<open>content.match(/^#\s+(.+)$/m)\<close>. Under \<open>/m\<close> the pattern can start at index 0 and after
  every line terminator. After the \<open>#\<close>, \<open>\s+\<close> takes the longest run of white space, line
  terminators included, and gives characters back one at a time until \<open>(.+)\<close> finds a
  character that is not a line terminator; the group then runs to the end of that line.
  \<open>title_at\<close> is the attempt after one \<open>#\<close>, \<open>title_search\<close> the search for the leftmost
  match.
\<close>

fun title_backtrack :: "nat \<Rightarrow> string \<Rightarrow> string option" where
  \<comment> \<open>\<open>\s+\<close> has taken \<open>n\<close> characters of the white space \<open>ws\<close>, after which the text ends\<close>
  "title_backtrack 0 ws = None"
| "title_backtrack (Suc k) ws =
     (case drop (Suc k) ws of
        [] \<Rightarrow> title_backtrack k ws
      | c # r \<Rightarrow>
          if is_line_term c then title_backtrack k ws
          else Some (takeWhile (\<lambda>x. \<not> is_line_term x) (c # r)))"

definition title_at :: "string \<Rightarrow> string option" where
  "title_at s =
     (let ws = takeWhile is_space s; rest = dropWhile is_space s
      in if ws = [] then None
         else if rest \<noteq> [] then Some (takeWhile (\<lambda>x. \<not> is_line_term x) rest)
         else title_backtrack (length ws) ws)"

fun title_search :: "bool \<Rightarrow> string \<Rightarrow> string option" where
  \<comment> \<open>the flag says whether \<open>^\<close> matches here\<close>
  "title_search at_start [] = None"
| "title_search at_start (c # cs) =
     (if at_start \<and> c = CHR ''#''
      then (case title_at cs of
              Some t \<Rightarrow> Some t
            | None \<Rightarrow> title_search (is_line_term c) cs)
      else title_search (is_line_term c) cs)"

text \<open>
  The loop over the lines. \<open>skipping\<close> is the inner \<open>while\<close>, entered at a line that trims
  to \<open>---\<close> and left after the next such line, or at the end of the file.
\<close>

fun find_description :: "bool \<Rightarrow> string list \<Rightarrow> string option" where
  "find_description skipping [] = None"
| "find_description True (l # ls) =
     (if trim l = ''---'' then find_description False ls else find_description True ls)"
| "find_description False (l # ls) =
     (let line = trim l
      in if line = [] \<or> starts_with ''#'' line then find_description False ls
         else if line = ''---'' then find_description True ls
         else Some (take 200 line))"

record parsed =
  title :: "string option"
  description :: "string option"

definition parseMarkdown :: "string \<Rightarrow> parsed" where
  "parseMarkdown content =
     \<lparr> title = map_option trim (title_search True content),
       description = find_description False (split_on LF content) \<rparr>"

text \<open>
  The description in the words of the specification: the first line that, trimmed, is not
  empty and does not start with \<open>#\<close>, cut to 200 characters, where \<open>claimed_body\<close> skips one
  \<open>---\<close> region, the one that starts on the first line. \<open>outside_regions\<close> skips every
  region from a \<open>---\<close> line through the next one, wherever it starts.
\<close>

definition is_paragraph :: "string \<Rightarrow> bool" where
  "is_paragraph l \<longleftrightarrow> l \<noteq> [] \<and> \<not> starts_with ''#'' l"

definition after_close :: "string list \<Rightarrow> string list" where
  \<comment> \<open>the lines after the next \<open>---\<close> line; none when there is no such line\<close>
  "after_close ls = tl (dropWhile (\<lambda>l. l \<noteq> ''---'') ls)"

definition claimed_body :: "string list \<Rightarrow> string list" where
  "claimed_body ls = (case ls of [] \<Rightarrow> [] | l # r \<Rightarrow> if l = ''---'' then after_close r else ls)"

definition claimed_description :: "string \<Rightarrow> string option" where
  "claimed_description content =
     map_option (take 200) (find is_paragraph (claimed_body (map trim (split_on LF content))))"

function outside_regions :: "string list \<Rightarrow> string list" where
  "outside_regions [] = []"
| "outside_regions (l # ls) =
     (if l = ''---'' then outside_regions (after_close ls) else l # outside_regions ls)"
  by pat_completeness auto
termination
proof (relation "measure length")
  show "wf (measure length)" by simp
next
  fix l :: string and ls :: "string list"
  have "length (tl (dropWhile (\<lambda>l. l \<noteq> ''---'') ls)) \<le> length ls"
    using length_dropWhile_le[of "\<lambda>l. l \<noteq> ''---''" ls] by simp
  then show "(after_close ls, l # ls) \<in> measure length"
    by (simp add: after_close_def)
next
  fix l :: string and ls :: "string list"
  show "(ls, l # ls) \<in> measure length" by simp
qed

subsection \<open>Facts about the description\<close>

lemma find_description_skipping:
  "find_description True ls = find_description False (tl (dropWhile (\<lambda>l. trim l \<noteq> ''---'') ls))"
  by (induction ls) auto

lemma after_close_map_trim:
  "after_close (map trim ls) = map trim (tl (dropWhile (\<lambda>l. trim l \<noteq> ''---'') ls))"
  by (simp add: after_close_def dropWhile_map comp_def map_tl)

lemma dashes_not_paragraph_start: "\<not> starts_with ''#'' ''---''" "''---'' \<noteq> []"
  by (simp_all add: starts_with_def)

lemma find_description_outside:
  "find_description False ls =
     map_option (take 200) (find is_paragraph (outside_regions (map trim ls)))"
proof (induction "length ls" arbitrary: ls rule: less_induct)
  case less
  show ?case
  proof (cases ls)
    case Nil
    then show ?thesis by simp
  next
    case (Cons l r)
    consider (skip) "trim l = [] \<or> starts_with ''#'' (trim l)"
      | (fence) "trim l = ''---''"
      | (para) "trim l \<noteq> []" "\<not> starts_with ''#'' (trim l)" "trim l \<noteq> ''---''"
      by blast
    then show ?thesis
    proof cases
      case skip
      then have nd: "trim l \<noteq> ''---''" using dashes_not_paragraph_start by auto
      have "find_description False r =
            map_option (take 200) (find is_paragraph (outside_regions (map trim r)))"
        using less[of r] Cons by simp
      with skip nd Cons show ?thesis by (auto simp: is_paragraph_def)
    next
      case fence
      let ?r' = "tl (dropWhile (\<lambda>l. trim l \<noteq> ''---'') r)"
      have "length ?r' \<le> length r"
        using length_dropWhile_le[of "\<lambda>l. trim l \<noteq> ''---''" r] by simp
      then have "find_description False ?r' =
            map_option (take 200) (find is_paragraph (outside_regions (map trim ?r')))"
        using less[of ?r'] Cons by simp
      with fence Cons show ?thesis
        by (simp add: dashes_not_paragraph_start find_description_skipping after_close_map_trim)
    next
      case para
      with Cons show ?thesis by (simp add: is_paragraph_def)
    qed
  qed
qed

lemma outside_no_fence: "''---'' \<notin> set ls \<Longrightarrow> outside_regions ls = ls"
  by (induction ls) auto

lemma outside_claimed:
  assumes "''---'' \<notin> set (claimed_body ls)"
  shows "outside_regions ls = claimed_body ls"
proof (cases ls)
  case Nil
  then show ?thesis by (simp add: claimed_body_def)
next
  case (Cons l r)
  show ?thesis
  proof (cases "l = ''---''")
    case True
    with Cons assms have "''---'' \<notin> set (after_close r)" by (simp add: claimed_body_def)
    with True Cons show ?thesis by (simp add: claimed_body_def outside_no_fence)
  next
    case False
    with Cons assms show ?thesis by (simp add: claimed_body_def outside_no_fence)
  qed
qed

subsection \<open>Claim about the title and the description\<close>

text \<open>
  The example of the specification, a header block on the first line and then a heading
  and a paragraph.
\<close>

lemma parseMarkdown_example:
  "parseMarkdown ''---\<newline>foo: bar\<newline>---\<newline>\<newline># Title\<newline>\<newline>Hello world.''
     = \<lparr> title = Some ''Title'', description = Some ''Hello world.'' \<rparr>"
  by code_simp

text \<open>
  Where the only \<open>---\<close> lines are the two of a header block on the first line, the
  description found is the one the specification describes.
\<close>

lemma parseMarkdown_description_top_block:
  assumes "''---'' \<notin> set (claimed_body (map trim (split_on LF content)))"
  shows "description (parseMarkdown content) = claimed_description content"
  using assms
  by (simp add: parseMarkdown_def find_description_outside outside_claimed claimed_description_def)

text \<open>
  Claim C9. The only \<open>---\<close> region to be skipped is the header block at the very top of
  the file. The loop has no notion of the top of the file: on a file whose first line is a
  heading and that has a \<open>---\<close> region further down, that region is skipped just the same,
  and the description returned is the line after the region, \<open>B\<close>, where the first
  non-empty line that is not a heading is the \<open>---\<close> line itself.
\<close>

theorem parseMarkdown_skips_later_region:
  "description (parseMarkdown ''# T\<newline>---\<newline>A\<newline>---\<newline>B'') = Some ''B''
   \<and> claimed_description ''# T\<newline>---\<newline>A\<newline>---\<newline>B'' = Some ''---''
   \<and> description (parseMarkdown ''# T\<newline>---\<newline>A\<newline>---\<newline>B'')
       \<noteq> claimed_description ''# T\<newline>---\<newline>A\<newline>---\<newline>B''"
  by code_simp

section \<open>Project context digest\<close>

subsection \<open>The workspace\<close>

text \<open>
  A directory is the list of its entries, in the order \<open>readdirSync\<close> returns them. A file
  carries its text, or \<open>None\<close> when reading it fails; a directory carries its entries, or
  says that it cannot be listed or is gone. A path below the root is the list of its
  names.
\<close>

datatype fsnode = FileN string "string option" | DirN string dir_state
  and dir_state = Missing | Unreadable | Entries "fsnode list"

datatype fs_error = ReadFailed string | ReaddirFailed "string list"

fun node_name :: "fsnode \<Rightarrow> string" where
  "node_name (FileN n c) = n"
| "node_name (DirN n d) = n"

definition lookup :: "string \<Rightarrow> fsnode list \<Rightarrow> fsnode option" where
  "lookup n root = find (\<lambda>e. node_name e = n) root"

definition existsSync :: "fsnode list \<Rightarrow> string \<Rightarrow> bool" where
  \<comment> \<open>\<open>fs.existsSync(path.join(this.workspaceRoot, n))\<close>\<close>
  "existsSync root n \<longleftrightarrow> lookup n root \<noteq> None"

definition readFileSync :: "fsnode list \<Rightarrow> string \<Rightarrow> fs_error + string" where
  \<comment> \<open>\<open>fs.readFileSync(path.join(this.workspaceRoot, n), 'utf-8')\<close>; it throws on a directory\<close>
  "readFileSync root n =
     (case lookup n root of
        Some (FileN _ (Some text)) \<Rightarrow> Inr text
      | _ \<Rightarrow> Inl (ReadFailed n))"

subsection \<open>The summary of package.json\<close>

text \<open>
  \<open>JSON.parse\<close> belongs to the language, not to the repository: the model takes it as a
  parameter \<open>parse\<close>, \<open>None\<close> when it throws. A parsed object lists its properties in the
  order the engine enumerates them; a parsed number is held as the text the language prints
  for it (\<open>0\<close> for zero, the only number that is not truthy). What the
  source does with the parsed value is modelled: the property reads (which throw on
  \<open>null\<close>), \<open>Object.keys\<close> of a truthy value, and \<open>JSON.stringify(_, null, 2)\<close>.
\<close>

datatype json = JNull | JBool bool | JNum string | JStr string | JArr "json list"
  | JObj "(string \<times> json) list"

fun digit_char :: "nat \<Rightarrow> char" where
  "digit_char n = (''0123456789abcdef'' ! (n mod 16))"

function show_nat :: "nat \<Rightarrow> string" where
  \<comment> \<open>the decimal digits of a number: how the language prints a whole number below \<open>10^21\<close>
      (here an index, an exit code, the seconds of a timeout)\<close>
  "show_nat n = (if n < 10 then [digit_char n] else show_nat (n div 10) @ [digit_char (n mod 10)])"
  by pat_completeness auto
termination
  by (relation "measure id") auto

declare show_nat.simps [simp del]

definition json_escape :: "char \<Rightarrow> string" where
  \<comment> \<open>one code unit inside a quoted JSON string\<close>
  "json_escape c =
     (if c = DQUOTE then [CHR 0x5C, DQUOTE]
      else if c = CHR 0x5C then [CHR 0x5C, CHR 0x5C]
      else if c = CHR 0x08 then [CHR 0x5C, CHR ''b'']
      else if c = CHR 0x09 then [CHR 0x5C, CHR ''t'']
      else if c = LF then [CHR 0x5C, CHR ''n'']
      else if c = CHR 0x0C then [CHR 0x5C, CHR ''f'']
      else if c = CR then [CHR 0x5C, CHR ''r'']
      else if (of_char c :: nat) < 32
        then [CHR 0x5C, CHR ''u'', CHR ''0'', CHR ''0'',
              digit_char (of_char c div 16), digit_char (of_char c mod 16)]
      else [c])"

definition json_quote :: "string \<Rightarrow> string" where
  "json_quote s = DQUOTE # concat (map json_escape s) @ [DQUOTE]"

definition indent_of :: "nat \<Rightarrow> string" where
  \<comment> \<open>\<open>'  '.repeat(depth)\<close>\<close>
  "indent_of depth = concat (replicate depth ''  '')"

fun stringify :: "nat \<Rightarrow> json \<Rightarrow> string"
  and stringify_items :: "nat \<Rightarrow> json list \<Rightarrow> string list"
  and stringify_props :: "nat \<Rightarrow> (string \<times> json) list \<Rightarrow> string list" where
  "stringify d JNull = ''null''"
| "stringify d (JBool b) = (if b then ''true'' else ''false'')"
| "stringify d (JNum printed) = printed"
| "stringify d (JStr s) = json_quote s"
| "stringify d (JArr xs) =
     (if xs = [] then ''[]''
      else ''['' @ [LF] @ join ('','' @ [LF]) (stringify_items (Suc d) xs) @ [LF] @ indent_of d @ '']'')"
| "stringify d (JObj kvs) =
     (if kvs = [] then ''{}''
      else ''{'' @ [LF] @ join ('','' @ [LF]) (stringify_props (Suc d) kvs) @ [LF] @ indent_of d @ ''}'')"
| "stringify_items d [] = []"
| "stringify_items d (x # xs) = (indent_of d @ stringify d x) # stringify_items d xs"
| "stringify_props d [] = []"
| "stringify_props d ((k, v) # kvs) =
     (indent_of d @ json_quote k @ '': '' @ stringify d v) # stringify_props d kvs"

definition truthy :: "json \<Rightarrow> bool" where
  "truthy v \<longleftrightarrow> (case v of JNull \<Rightarrow> False | JBool b \<Rightarrow> b | JNum printed \<Rightarrow> printed \<noteq> ''0'' | JStr s \<Rightarrow> s \<noteq> [] | _ \<Rightarrow> True)"

definition object_keys :: "json \<Rightarrow> string list" where
  \<comment> \<open>\<open>Object.keys\<close> of a value that is not \<open>null\<close>\<close>
  "object_keys v =
     (case v of
        JObj kvs \<Rightarrow> map fst kvs
      | JArr xs \<Rightarrow> map show_nat [0 ..< length xs]
      | JStr s \<Rightarrow> map show_nat [0 ..< length s]
      | _ \<Rightarrow> [])"

definition property :: "json \<Rightarrow> string \<Rightarrow> json option" where
  \<comment> \<open>\<open>pkg.k\<close> for the keys the source reads; \<open>None\<close> is \<open>undefined\<close>\<close>
  "property pkg k = (case pkg of JObj kvs \<Rightarrow> map_of kvs k | _ \<Rightarrow> None)"

definition key_list :: "json option \<Rightarrow> json" where
  \<comment> \<open>\<open>v ? Object.keys(v) : []\<close>\<close>
  "key_list v =
     (case v of
        None \<Rightarrow> JArr []
      | Some x \<Rightarrow> if truthy x then JArr (map JStr (object_keys x)) else JArr [])"

definition defined_props :: "(string \<times> json option) list \<Rightarrow> (string \<times> json) list" where
  \<comment> \<open>\<open>JSON.stringify\<close> leaves out the properties whose value is \<open>undefined\<close>\<close>
  "defined_props kvs = concat (map (\<lambda>(k, v). case v of None \<Rightarrow> [] | Some x \<Rightarrow> [(k, x)]) kvs)"

definition package_summary :: "json \<Rightarrow> string option" where
  \<comment> \<open>the \<open>summary\<close> of the source; \<open>None\<close> when reading a property of \<open>null\<close> throws\<close>
  "package_summary pkg =
     (if pkg = JNull then None
      else Some (stringify 0 (JObj (defined_props
        [(''name'', property pkg ''name''),
         (''description'', property pkg ''description''),
         (''scripts'', property pkg ''scripts''),
         (''dependencies'', Some (key_list (property pkg ''dependencies''))),
         (''devDependencies'', Some (key_list (property pkg ''devDependencies'')))]))))"

subsection \<open>The directory tree\<close>

definition structure_skipDirs :: "string list" where
  "structure_skipDirs =
     [''node_modules'', ''.git'', ''dist'', ''out'', ''build'', ''__pycache__'', ''venv'', ''.venv'',
      ''.idea'', ''.vscode'']"

fun getDirectoryStructure :: "dir_state \<Rightarrow> nat \<Rightarrow> nat \<Rightarrow> string"
  and structure_lines :: "fsnode list \<Rightarrow> nat \<Rightarrow> nat \<Rightarrow> string list" where
  "getDirectoryStructure d depth maxDepth =
     (if depth > maxDepth then []
      else (case d of
              Entries es \<Rightarrow> join ''\<newline>'' (structure_lines es depth maxDepth)
            | _ \<Rightarrow> []))"
| "structure_lines [] depth maxDepth = []"
| "structure_lines (FileN n c # es) depth maxDepth =
     (if starts_with ''.'' n \<and> depth = 0 then structure_lines es depth maxDepth
      else if n \<in> set structure_skipDirs then structure_lines es depth maxDepth
      else (indent_of depth @ n) # structure_lines es depth maxDepth)"
| "structure_lines (DirN n d # es) depth maxDepth =
     (if starts_with ''.'' n \<and> depth = 0 then structure_lines es depth maxDepth
      else if n \<in> set structure_skipDirs then structure_lines es depth maxDepth
      else (let subTree = getDirectoryStructure d (depth + 1) maxDepth
            in (indent_of depth @ n @ ''/'')
               # (if subTree \<noteq> [] then [subTree] else [])
               @ structure_lines es depth maxDepth))"

subsection \<open>The digest\<close>

record digest_state =
  contextParts :: "string list"
  totalChars :: nat
  filesRead :: "string list"

definition MAX_FILE_SIZE :: nat where "MAX_FILE_SIZE = 2000"
definition MAX_TOTAL :: nat where "MAX_TOTAL = 8000"

text \<open>
  One definition per section of \<open>getProjectContext\<close>. \<open>filesRead\<close> is not in the source:
  it records the name at every \<open>readFileSync\<close>, so that the reads can be spoken about.
\<close>

definition add_claude :: "fsnode list \<Rightarrow> digest_state \<Rightarrow> fs_error + digest_state" where
  "add_claude root st =
     (if existsSync root ''CLAUDE.md'' \<and> totalChars st < MAX_TOTAL then
        (case readFileSync root ''CLAUDE.md'' of
           Inl e \<Rightarrow> Inl e
         | Inr text \<Rightarrow>
             (let trimmed = take MAX_FILE_SIZE text
              in Inr \<lparr> contextParts = contextParts st @ [''## CLAUDE.md\<newline>'' @ trimmed],
                       totalChars = totalChars st + length trimmed,
                       filesRead = filesRead st @ [''CLAUDE.md''] \<rparr>))
      else Inr st)"

definition add_readme :: "fsnode list \<Rightarrow> digest_state \<Rightarrow> fs_error + digest_state" where
  "add_readme root st =
     (if existsSync root ''README.md'' \<and> totalChars st < MAX_TOTAL then
        (case readFileSync root ''README.md'' of
           Inl e \<Rightarrow> Inl e
         | Inr text \<Rightarrow>
             (let remaining = min MAX_FILE_SIZE (MAX_TOTAL - totalChars st);
                  trimmed = take remaining text
              in Inr \<lparr> contextParts = contextParts st @ [''## README.md\<newline>'' @ trimmed],
                       totalChars = totalChars st + length trimmed,
                       filesRead = filesRead st @ [''README.md''] \<rparr>))
      else Inr st)"

definition add_package :: "(string \<Rightarrow> json option) \<Rightarrow> fsnode list \<Rightarrow> digest_state \<Rightarrow> digest_state" where
  \<comment> \<open>the read, the parse and the property reads stand inside \<open>try\<close>: a failure skips the section\<close>
  "add_package parse root st =
     (if existsSync root ''package.json'' \<and> totalChars st < MAX_TOTAL then
        (case readFileSync root ''package.json'' of
           Inl e \<Rightarrow> st
         | Inr text \<Rightarrow>
             (case Option.bind (parse text) package_summary of
                None \<Rightarrow> st \<lparr> filesRead := filesRead st @ [''package.json''] \<rparr>
              | Some summary \<Rightarrow>
                  \<lparr> contextParts = contextParts st @ [''## package.json\<newline>'' @ summary],
                    totalChars = totalChars st + length summary,
                    filesRead = filesRead st @ [''package.json''] \<rparr>))
      else st)"

definition add_pyproject :: "fsnode list \<Rightarrow> digest_state \<Rightarrow> fs_error + digest_state" where
  "add_pyproject root st =
     (if existsSync root ''pyproject.toml'' \<and> totalChars st < MAX_TOTAL then
        (case readFileSync root ''pyproject.toml'' of
           Inl e \<Rightarrow> Inl e
         | Inr text \<Rightarrow>
             (let remaining = min 1000 (MAX_TOTAL - totalChars st);
                  trimmed = take remaining text
              in Inr \<lparr> contextParts = contextParts st @ [''## pyproject.toml\<newline>'' @ trimmed],
                       totalChars = totalChars st + length trimmed,
                       filesRead = filesRead st @ [''pyproject.toml''] \<rparr>))
      else Inr st)"

definition add_structure :: "fsnode list \<Rightarrow> digest_state \<Rightarrow> digest_state" where
  "add_structure root st =
     (if totalChars st < MAX_TOTAL then
        (let structure = getDirectoryStructure (Entries root) 0 2;
             remaining = min 1000 (MAX_TOTAL - totalChars st)
         in st \<lparr> contextParts := contextParts st @ [''## Structure\<newline>'' @ take remaining structure] \<rparr>)
      else st)"

definition digest_run :: "(string \<Rightarrow> json option) \<Rightarrow> fsnode list \<Rightarrow> fs_error + digest_state" where
  \<comment> \<open>the five sections in the order of the source; an uncaught read failure ends the call\<close>
  "digest_run parse root =
     (case add_claude root \<lparr> contextParts = [], totalChars = 0, filesRead = [] \<rparr> of
        Inl e \<Rightarrow> Inl e
      | Inr s1 \<Rightarrow>
          (case add_readme root s1 of
             Inl e \<Rightarrow> Inl e
           | Inr s2 \<Rightarrow>
               (case add_pyproject root (add_package parse root s2) of
                  Inl e \<Rightarrow> Inl e
                | Inr s4 \<Rightarrow> Inr (add_structure root s4))))"

definition getProjectContext :: "(string \<Rightarrow> json option) \<Rightarrow> fsnode list \<Rightarrow> fs_error + string" where
  "getProjectContext parse root =
     (case digest_run parse root of
        Inl e \<Rightarrow> Inl e
      | Inr st \<Rightarrow> Inr (join (''\<newline>'' @ ''\<newline>'') (contextParts st)))"

definition files_read :: "(string \<Rightarrow> json option) \<Rightarrow> fsnode list \<Rightarrow> fs_error + string list" where
  \<comment> \<open>the names \<open>getProjectContext\<close> has read when it returns\<close>
  "files_read parse root =
     (case digest_run parse root of Inl e \<Rightarrow> Inl e | Inr st \<Rightarrow> Inr (filesRead st))"

definition getReadableFiles :: "fsnode list \<Rightarrow> string list" where
  "getReadableFiles root =
     filter (existsSync root)
       [''README.md'', ''CLAUDE.md'', ''package.json'', ''pyproject.toml'', ''requirements.txt'']"

definition parse_only :: "string \<Rightarrow> json \<Rightarrow> string \<Rightarrow> json option" where
  \<comment> \<open>a \<open>parse\<close> that is known on one text only; used to state examples\<close>
  "parse_only text v = (\<lambda>t. if t = text then Some v else None)"

text \<open>Notions the statements about the digest use.\<close>

definition summary_length :: "(string \<Rightarrow> json option) \<Rightarrow> fsnode list \<Rightarrow> nat" where
  \<comment> \<open>the length of the package.json summary, 0 when the section is skipped\<close>
  "summary_length parse root =
     (case readFileSync root ''package.json'' of
        Inl e \<Rightarrow> 0
      | Inr text \<Rightarrow> (case Option.bind (parse text) package_summary of None \<Rightarrow> 0 | Some s \<Rightarrow> length s))"

definition parts_length :: "string list \<Rightarrow> nat" where
  \<comment> \<open>the characters of the sections, with two for a separator after each\<close>
  "parts_length ps = sum_list (map length ps) + 2 * length ps"

definition long_name :: string where
  "long_name = replicate 100000 (CHR ''a'')"

definition long_manifest :: string where
  \<comment> \<open>the text of a package.json whose name has 100000 characters\<close>
  "long_manifest = ''{'' @ [DQUOTE] @ ''name'' @ [DQUOTE] @ '':'' @ [DQUOTE] @ long_name @ [DQUOTE] @ ''}''"

subsection \<open>Facts about the digest\<close>

lemma concat_replicate_single: "concat (replicate n [x]) = replicate n x"
  by (induction n) auto

lemma json_quote_plain: "json_quote (replicate n (CHR ''a'')) = DQUOTE # replicate n (CHR ''a'') @ [DQUOTE]"
  by (simp add: json_quote_def json_escape_def concat_replicate_single)

lemma long_summary:
  "package_summary (JObj [(''name'', JStr long_name)]) =
     Some (''{'' @ [LF] @ ''  '' @ [DQUOTE] @ ''name'' @ [DQUOTE] @ '': '' @ [DQUOTE] @ long_name @ [DQUOTE]
           @ '','' @ [LF] @ ''  '' @ [DQUOTE] @ ''dependencies'' @ [DQUOTE] @ '': []''
           @ '','' @ [LF] @ ''  '' @ [DQUOTE] @ ''devDependencies'' @ [DQUOTE] @ '': []'' @ [LF] @ ''}'')"
  by (simp add: package_summary_def defined_props_def property_def key_list_def indent_of_def
      json_quote_plain long_name_def json_quote_def json_escape_def)

lemma join_length: "length (join (''\<newline>'' @ ''\<newline>'') ps) + 2 \<le> parts_length ps + (if ps = [] then 2 else 0)"
  by (induction "''\<newline>'' @ ''\<newline>''" ps rule: join.induct) (auto simp: parts_length_def)

lemma parts_length_snoc: "parts_length (ps @ [p]) = parts_length ps + length p + 2"
  by (simp add: parts_length_def)

lemma add_claude_bound:
  "add_claude root st = Inr st' \<Longrightarrow>
   parts_length (contextParts st') \<le> parts_length (contextParts st) + 2015"
  by (auto simp: add_claude_def parts_length_snoc MAX_FILE_SIZE_def Let_def split: if_splits sum.splits)

lemma add_readme_bound:
  "add_readme root st = Inr st' \<Longrightarrow>
   parts_length (contextParts st') \<le> parts_length (contextParts st) + 2015"
  by (auto simp: add_readme_def parts_length_snoc MAX_FILE_SIZE_def Let_def split: if_splits sum.splits)

lemma add_package_bound:
  "parts_length (contextParts (add_package parse root st))
     \<le> parts_length (contextParts st) + 18 + summary_length parse root"
  by (auto simp: add_package_def parts_length_snoc summary_length_def split: if_splits sum.splits option.splits)

lemma add_pyproject_bound:
  "add_pyproject root st = Inr st' \<Longrightarrow>
   parts_length (contextParts st') \<le> parts_length (contextParts st) + 1020"
  by (auto simp: add_pyproject_def parts_length_snoc Let_def split: if_splits sum.splits)

lemma add_structure_bound:
  "parts_length (contextParts (add_structure root st)) \<le> parts_length (contextParts st) + 1015"
  by (auto simp: add_structure_def parts_length_snoc Let_def split: if_splits)

lemma digest_length_bound:
  assumes "getProjectContext parse root = Inr d"
  shows "length d \<le> 6081 + summary_length parse root"
proof -
  from assms obtain st where st: "digest_run parse root = Inr st"
    and d: "d = join (''\<newline>'' @ ''\<newline>'') (contextParts st)"
    by (auto simp: getProjectContext_def split: sum.splits)
  from st obtain s1 s2 s4 where
    s1: "add_claude root \<lparr> contextParts = [], totalChars = 0, filesRead = [] \<rparr> = Inr s1"
    and s2: "add_readme root s1 = Inr s2"
    and s4: "add_pyproject root (add_package parse root s2) = Inr s4"
    and s5: "st = add_structure root s4"
    by (auto simp: digest_run_def split: sum.splits)
  have "parts_length (contextParts s1) \<le> 2015"
    using add_claude_bound[OF s1] by (simp add: parts_length_def)
  with add_readme_bound[OF s2] add_package_bound[of parse root s2] add_pyproject_bound[OF s4]
    add_structure_bound[of root s4] s5
  have "parts_length (contextParts st) \<le> 6083 + summary_length parse root" by simp
  with join_length[of "contextParts st"] d show ?thesis
    by (cases "contextParts st = []") auto
qed

lemma digest_within_budget_without_manifest:
  assumes "getProjectContext parse root = Inr d" "\<not> existsSync root ''package.json''"
  shows "length d \<le> 8000"
proof -
  from assms(2) have "summary_length parse root = 0"
    by (simp add: summary_length_def readFileSync_def existsSync_def)
  with digest_length_bound[OF assms(1)] show ?thesis by simp
qed

lemma readable_iff:
  "n \<in> set (getReadableFiles root) \<longleftrightarrow>
     existsSync root n \<and>
     n \<in> set [''README.md'', ''CLAUDE.md'', ''package.json'', ''pyproject.toml'', ''requirements.txt'']"
  unfolding getReadableFiles_def set_filter by blast

lemma add_claude_reads:
  "add_claude root st = Inr st' \<Longrightarrow> set (filesRead st) \<subseteq> set (getReadableFiles root) \<Longrightarrow>
   set (filesRead st') \<subseteq> set (getReadableFiles root)"
  by (auto simp: add_claude_def subset_iff readable_iff Let_def split: if_splits sum.splits)

lemma add_readme_reads:
  "add_readme root st = Inr st' \<Longrightarrow> set (filesRead st) \<subseteq> set (getReadableFiles root) \<Longrightarrow>
   set (filesRead st') \<subseteq> set (getReadableFiles root)"
  by (auto simp: add_readme_def subset_iff readable_iff Let_def split: if_splits sum.splits)

lemma add_package_reads:
  "set (filesRead st) \<subseteq> set (getReadableFiles root) \<Longrightarrow>
   set (filesRead (add_package parse root st)) \<subseteq> set (getReadableFiles root)"
  by (auto simp: add_package_def subset_iff readable_iff split: if_splits sum.splits option.splits)

lemma add_pyproject_reads:
  "add_pyproject root st = Inr st' \<Longrightarrow> set (filesRead st) \<subseteq> set (getReadableFiles root) \<Longrightarrow>
   set (filesRead st') \<subseteq> set (getReadableFiles root)"
  by (auto simp: add_pyproject_def subset_iff readable_iff Let_def split: if_splits sum.splits)

lemma add_structure_reads: "filesRead (add_structure root st) = filesRead st"
  by (simp add: add_structure_def Let_def)

lemma files_read_readable:
  assumes "files_read parse root = Inr fs"
  shows "set fs \<subseteq> set (getReadableFiles root)"
proof -
  from assms obtain st where st: "digest_run parse root = Inr st" and fs: "fs = filesRead st"
    by (auto simp: files_read_def split: sum.splits)
  from st obtain s1 s2 s4 where
    s1: "add_claude root \<lparr> contextParts = [], totalChars = 0, filesRead = [] \<rparr> = Inr s1"
    and s2: "add_readme root s1 = Inr s2"
    and s4: "add_pyproject root (add_package parse root s2) = Inr s4"
    and s5: "st = add_structure root s4"
    by (auto simp: digest_run_def split: sum.splits)
  have "set (filesRead s1) \<subseteq> set (getReadableFiles root)"
    using add_claude_reads[OF s1] by simp
  then have "set (filesRead s2) \<subseteq> set (getReadableFiles root)"
    using add_readme_reads[OF s2] by simp
  then have "set (filesRead (add_package parse root s2)) \<subseteq> set (getReadableFiles root)"
    by (rule add_package_reads)
  then have "set (filesRead s4) \<subseteq> set (getReadableFiles root)"
    using add_pyproject_reads[OF s4] by simp
  then show ?thesis by (simp add: fs s5 add_structure_reads)
qed

subsection \<open>Claims about the digest\<close>

text \<open>
  Claim C1. The digest can be longer than 8000 characters. Every section but one is cut
  to what is left of the budget; the summary of package.json is appended whole, whatever
  its length. By \<open>digest_length_bound\<close> the digest has at most 6081 characters more than
  that summary, and by \<open>digest_within_budget_without_manifest\<close> it stays within the
  budget when there is no package.json. With a package.json whose name has
  100000 characters, in a workspace that holds nothing else, the digest has 100079.
\<close>

theorem getProjectContext_exceeds_budget:
  "map_sum id length
     (getProjectContext (parse_only long_manifest (JObj [(''name'', JStr long_name)]))
        [FileN ''package.json'' (Some long_manifest)]) = Inr 100079"
proof -
  let ?root = "[FileN ''package.json'' (Some long_manifest)]"
  let ?parse = "parse_only long_manifest (JObj [(''name'', JStr long_name)])"
  obtain summary where s: "package_summary (JObj [(''name'', JStr long_name)]) = Some summary"
    and l: "length summary = 100063"
    using long_summary by (simp add: long_name_def)
  have e: "existsSync ?root ''package.json''" "\<not> existsSync ?root ''CLAUDE.md''"
    "\<not> existsSync ?root ''README.md''" "\<not> existsSync ?root ''pyproject.toml''"
    by (simp_all add: existsSync_def lookup_def)
  have r: "readFileSync ?root ''package.json'' = Inr long_manifest"
    by (simp add: readFileSync_def lookup_def)
  have "digest_run ?parse ?root =
        Inr \<lparr> contextParts = [''## package.json\<newline>'' @ summary], totalChars = 100063,
              filesRead = [''package.json''] \<rparr>"
    using e r s l
    by (simp add: digest_run_def add_claude_def add_readme_def add_package_def add_pyproject_def
        add_structure_def parse_only_def MAX_TOTAL_def)
  then show ?thesis using l by (simp add: getProjectContext_def)
qed

text \<open>
  Claim C5. \<open>getReadableFiles\<close> can name a file that \<open>getProjectContext\<close> never reads:
  it lists requirements.txt when the file exists, and no section of the digest reads it.
  In a workspace that holds only requirements.txt the first returns that name and the
  second reads nothing, whatever \<open>JSON.parse\<close> does. Only the other inclusion holds
  (\<open>files_read_readable\<close>): every file read is listed.
\<close>

theorem getReadableFiles_lists_unread_file:
  "getReadableFiles [FileN ''requirements.txt'' (Some ''flask'')] = [''requirements.txt'']
   \<and> files_read parse [FileN ''requirements.txt'' (Some ''flask'')] = Inr []"
  by (simp add: getReadableFiles_def files_read_def digest_run_def add_claude_def add_readme_def
      add_package_def add_pyproject_def add_structure_def existsSync_def lookup_def MAX_TOTAL_def)

section \<open>External assistant client\<close>

text \<open>
  \<open>execute\<close> returns a promise whose executor spawns the subprocess, writes the prompt to
  its input, and registers the handlers and the timer. An exception thrown by the executor
  rejects the promise; \<open>spawn\<close> throws for some failures instead of reporting them with an
  \<open>error\<close> event, and the write throws when the subprocess has no input stream. \<open>launch\<close>
  says how the executor ended. After it has returned, what happens is a sequence of events
  of the subprocess and of the timer, handled one at a time: the model is the state the
  handlers share and one step per event. No listener is registered on the input stream of
  the subprocess, so an error of that stream (\<open>StdinError\<close>) reaches no handler and is left
  to the extension host, which logs it. The log lines are left out.
\<close>

record ClaudeResponse =
  success :: bool
  content :: string
  error :: "string option"

datatype 'a promise = Pending | Fulfilled 'a | Rejected string

definition resolve :: "'a promise \<Rightarrow> 'a \<Rightarrow> 'a promise" where
  \<comment> \<open>resolving a promise that is settled does nothing\<close>
  "resolve p v = (case p of Pending \<Rightarrow> Fulfilled v | _ \<Rightarrow> p)"

datatype launch = SpawnThrows string | StdinThrows string | Launched

datatype event =
    StdoutData string
  | StderrData string
  | TimeoutFired
  | Close "nat option"
  | SpawnError string
  | StdinError string

record exec_state =
  args :: "string list"
  stdin_text :: string
  stdout :: string
  stderr :: string
  timer_active :: bool
  result :: "ClaudeResponse promise"

definition timeout_of :: "nat option \<Rightarrow> nat" where
  \<comment> \<open>\<open>options?.timeout || 300000\<close>, in milliseconds\<close>
  "timeout_of opt = (case opt of None \<Rightarrow> 300000 | Some t \<Rightarrow> if t = 0 then 300000 else t)"

definition show_seconds :: "nat \<Rightarrow> string" where
  \<comment> \<open>\<open>`${timeout / 1000}`\<close> for whole milliseconds below \<open>2^31\<close>\<close>
  "show_seconds t =
     (let q = t div 1000; r = t mod 1000
      in if r = 0 then show_nat q
         else show_nat q @ ''.''
              @ rev (dropWhile (\<lambda>c. c = CHR ''0'')
                  (rev [digit_char (r div 100), digit_char (r div 10 mod 10), digit_char (r mod 10)])))"

definition show_code :: "nat option \<Rightarrow> string" where
  \<comment> \<open>\<open>`${code}`\<close>; an exit code is a whole number below \<open>2^32\<close>, and the code is \<open>null\<close>
      when a signal ended the process\<close>
  "show_code code = (case code of None \<Rightarrow> ''null'' | Some n \<Rightarrow> show_nat n)"

definition timeout_response :: "nat \<Rightarrow> string \<Rightarrow> ClaudeResponse" where
  "timeout_response t out =
     \<lparr> success = False, content = out,
       error = Some (''Timeout after '' @ show_seconds t @ ''s. Partial output: '' @ take 200 out) \<rparr>"

definition close_response :: "nat option \<Rightarrow> string \<Rightarrow> string \<Rightarrow> ClaudeResponse" where
  "close_response code out err =
     (if code = Some 0 then \<lparr> success = True, content = trim out, error = None \<rparr>
      else \<lparr> success = False, content = trim out,
             error = Some (if err \<noteq> [] then err else ''Process exited with code '' @ show_code code) \<rparr>)"

definition error_response :: "string \<Rightarrow> ClaudeResponse" where
  "error_response msg =
     \<lparr> success = False, content = [],
       error = Some (''Failed to execute Claude Code: '' @ msg
                     @ ''. Make sure '' @ [SQUOTE] @ ''claude'' @ [SQUOTE] @ '' CLI is installed.'') \<rparr>"

fun step :: "nat \<Rightarrow> exec_state \<Rightarrow> event \<Rightarrow> exec_state" where
  "step t st (StdoutData chunk) = st \<lparr> stdout := stdout st @ chunk \<rparr>"
| "step t st (StderrData chunk) = st \<lparr> stderr := stderr st @ chunk \<rparr>"
| "step t st TimeoutFired =
     (if timer_active st
      then st \<lparr> timer_active := False, result := resolve (result st) (timeout_response t (stdout st)) \<rparr>
      else st)"
| "step t st (Close code) =
     st \<lparr> timer_active := False,
          result := resolve (result st) (close_response code (stdout st) (stderr st)) \<rparr>"
| "step t st (SpawnError msg) =
     st \<lparr> timer_active := False, result := resolve (result st) (error_response msg) \<rparr>"
| "step t st (StdinError msg) = st"

definition spawn_args :: "bool \<Rightarrow> string list" where
  \<comment> \<open>the arguments, with the flag only when \<open>skipPermissions\<close> is set\<close>
  "spawn_args skipPermissions =
     [''-p'', ''--model'', ''sonnet'']
     @ (if skipPermissions then [''--dangerously-skip-permissions''] else [])"

definition exec_init :: "bool \<Rightarrow> string \<Rightarrow> exec_state" where
  \<comment> \<open>the state when the executor has returned: the prompt is written, the timer is armed\<close>
  "exec_init skipPermissions prompt =
     \<lparr> args = spawn_args skipPermissions, stdin_text = prompt,
       stdout = [], stderr = [], timer_active = True, result = Pending \<rparr>"

definition run :: "bool \<Rightarrow> string \<Rightarrow> nat option \<Rightarrow> event list \<Rightarrow> exec_state" where
  "run skipPermissions prompt opt evs =
     foldl (step (timeout_of opt)) (exec_init skipPermissions prompt) evs"

definition execute ::
  "bool \<Rightarrow> string \<Rightarrow> nat option \<Rightarrow> launch \<Rightarrow> event list \<Rightarrow> ClaudeResponse promise" where
  \<comment> \<open>the promise of \<open>execute(prompt, {timeout})\<close> after the executor and the events; when the
      executor has thrown no handler is registered, and the events do not reach the promise\<close>
  "execute skipPermissions prompt opt how evs =
     (case how of
        SpawnThrows msg \<Rightarrow> Rejected msg
      | StdinThrows msg \<Rightarrow> Rejected msg
      | Launched \<Rightarrow> result (run skipPermissions prompt opt evs))"

definition exited :: "event \<Rightarrow> bool" where
  \<comment> \<open>the subprocess has ended or could not be started\<close>
  "exited e \<longleftrightarrow> (case e of Close code \<Rightarrow> True | SpawnError msg \<Rightarrow> True | _ \<Rightarrow> False)"

definition settling :: "event \<Rightarrow> bool" where
  "settling e \<longleftrightarrow> exited e \<or> e = TimeoutFired"

definition stdout_of :: "event list \<Rightarrow> string" where
  \<comment> \<open>the standard output the events have delivered\<close>
  "stdout_of evs = concat (map (\<lambda>e. case e of StdoutData chunk \<Rightarrow> chunk | _ \<Rightarrow> []) evs)"

subsection \<open>Facts about the event handlers\<close>

lemma resolve_settled: "p \<noteq> Pending \<Longrightarrow> resolve p v = p"
  by (cases p) (simp_all add: resolve_def)

lemma step_settled:
  assumes "result st \<noteq> Pending"
  shows "result (step t st e) = result st"
  using assms by (cases e) (simp_all add: resolve_settled)

lemma steps_settled:
  "result st \<noteq> Pending \<Longrightarrow> result (foldl (step t) st evs) = result st"
proof (induction evs arbitrary: st)
  case Nil
  show ?case by simp
next
  case (Cons e evs)
  have "result (step t st e) \<noteq> Pending" using Cons.prems by (simp add: step_settled)
  from Cons.IH[OF this] show ?case using Cons.prems by (simp add: step_settled)
qed



text \<open>While no settling event has come, the timer is armed and the promise is pending.\<close>

lemma steps_unsettled:
  assumes "\<not> list_ex settling evs" "timer_active st" "result st = Pending"
  shows "timer_active (foldl (step t) st evs) \<and> result (foldl (step t) st evs) = Pending
         \<and> stdout (foldl (step t) st evs) = stdout st @ stdout_of evs"
  using assms
proof (induction evs arbitrary: st)
  case Nil
  then show ?case by (simp add: stdout_of_def)
next
  case (Cons e evs)
  from Cons.prems(1) have ne: "\<not> settling e" and nes: "\<not> list_ex settling evs" by simp_all
  from ne Cons.prems(2,3) have s: "timer_active (step t st e)" "result (step t st e) = Pending"
    "stdout (step t st e) = stdout st @ stdout_of [e]"
    by (cases e; simp add: settling_def exited_def stdout_of_def)+
  from Cons.IH[OF nes s(1,2)] s(3) show ?case by (simp add: stdout_of_def)
qed





text \<open>No handler touches what the executor has sent to the subprocess.\<close>

lemma step_launch_fixed: "args (step t st e) = args st \<and> stdin_text (step t st e) = stdin_text st"
  by (cases e) simp_all

lemma run_launch_fixed:
  "args (run skip prompt opt evs) = spawn_args skip \<and> stdin_text (run skip prompt opt evs) = prompt"
proof -
  have "args (foldl (step t) st evs) = args st \<and> stdin_text (foldl (step t) st evs) = stdin_text st"
    for t st
    by (induction evs arbitrary: st) (simp_all add: step_launch_fixed)
  then show ?thesis by (simp add: run_def exec_init_def)
qed


lemma execute_after_timeout:
  assumes "\<not> list_ex settling before"
  shows "execute skip prompt opt Launched (before @ TimeoutFired # later) =
           Fulfilled (timeout_response (timeout_of opt) (stdout_of before))"
proof -
  let ?t = "timeout_of opt"
  let ?s = "run skip prompt opt before"
  have s: "timer_active ?s" "result ?s = Pending" "stdout ?s = stdout_of before"
    using steps_unsettled[OF assms, of "exec_init skip prompt" ?t]
    by (simp_all add: run_def exec_init_def)
  then have "result (step ?t ?s TimeoutFired) = Fulfilled (timeout_response ?t (stdout_of before))"
    by (simp add: resolve_def)
  moreover have "execute skip prompt opt Launched (before @ TimeoutFired # later) =
                 result (foldl (step ?t) (step ?t ?s TimeoutFired) later)"
    by (simp add: execute_def run_def)
  ultimately show ?thesis by (simp add: steps_settled)
qed

subsection \<open>Claims about the assistant client\<close>

text \<open>
  Claim C6. When the timer fires and, before that, the subprocess has neither closed nor
  failed to start, the promise is fulfilled with \<open>success = false\<close>, with the standard
  output received so far as content, untrimmed, and with an error message that ends in
  the first 200 characters of that output. Whatever comes after the timeout does not
  change the result. The subprocess of the claim is running, so the executor has returned.
\<close>

theorem execute_timeout_result:
  assumes "\<forall>e \<in> set before. \<not> exited e \<and> e \<noteq> TimeoutFired"
  shows "execute skip prompt opt Launched (before @ TimeoutFired # later) =
           Fulfilled \<lparr> success = False, content = stdout_of before,
             error = Some (''Timeout after '' @ show_seconds (timeout_of opt)
                           @ ''s. Partial output: '' @ take 200 (stdout_of before)) \<rparr>"
proof -
  from assms have "\<not> list_ex settling before"
    by (auto simp: list_ex_iff settling_def)
  from execute_after_timeout[OF this] show ?thesis
    by (simp add: timeout_response_def)
qed

theorem execute_timeout_result_witness:
  "execute False ''hello'' (Some 60000) Launched
     ([StdoutData ''par'', StderrData ''warn'', StdoutData ''tial''] @ TimeoutFired # [Close None]) =
     Fulfilled \<lparr> success = False, content = ''partial'',
       error = Some ''Timeout after 60s. Partial output: partial'' \<rparr>"
proof -
  have h: "\<forall>e \<in> set [StdoutData ''par'', StderrData ''warn'', StdoutData ''tial'']. \<not> exited e \<and> e \<noteq> TimeoutFired"
    by (simp add: exited_def)
  have v: "stdout_of [StdoutData ''par'', StderrData ''warn'', StdoutData ''tial''] = ''partial''"
    "show_seconds (timeout_of (Some 60000)) = ''60''"
    by (simp_all add: stdout_of_def show_seconds_def timeout_of_def show_nat.simps)
  show ?thesis
    using execute_timeout_result[OF h, of False "''hello''" "Some 60000" "[Close None]"]
    by (simp add: v)
qed




section \<open>Agent rewriter\<close>

definition contextMarker :: string where
  "contextMarker = ''## Project Context (Auto-generated)''"

definition strip_old_context :: "string \<Rightarrow> string" where
  \<comment> \<open>step 2: cut at the first marker, then \<open>trimEnd\<close>\<close>
  "strip_old_context txt =
     (case find_sub contextMarker txt of None \<Rightarrow> txt | Some (pre, post) \<Rightarrow> trimEnd pre)"

definition split_frontmatter :: "string \<Rightarrow> string \<times> string" where
  \<comment> \<open>step 3: \<open>indexOf('---', 4)\<close>; the frontmatter up to and with these hyphens, and the trimmed rest\<close>
  "split_frontmatter txt =
     (case find_sub ''---'' (drop 4 txt) of
        None \<Rightarrow> ([], [])
      | Some (pre, post) \<Rightarrow> (take 4 txt @ pre @ ''---'', trim post))"

definition description_at :: "string \<Rightarrow> string option" where
  \<comment> \<open>\<open>\s*(.+)\<close> after \<open>description:\<close>; \<open>\s*\<close> gives back characters as \<open>\s+\<close> does in the title
      pattern, down to none\<close>
  "description_at s =
     (let ws = takeWhile is_space s; rest = dropWhile is_space s
      in if rest \<noteq> [] then Some (takeWhile (\<lambda>x. \<not> is_line_term x) rest)
         else (case title_backtrack (length ws) ws of
                 Some d \<Rightarrow> Some d
               | None \<Rightarrow>
                   (case ws of
                      [] \<Rightarrow> None
                    | c # r \<Rightarrow>
                        (if is_line_term c then None
                         else Some (takeWhile (\<lambda>x. \<not> is_line_term x) ws)))))"

fun description_search :: "string \<Rightarrow> string option" where
  \<comment> \<open>\<open>content.match(/description:\s*(.+)/)\<close>: the group of the leftmost match\<close>
  "description_search [] = None"
| "description_search (c # cs) =
     (if starts_with ''description:'' (c # cs)
      then (case description_at (drop 12 (c # cs)) of
              Some d \<Rightarrow> Some d
            | None \<Rightarrow> description_search cs)
      else description_search cs)"

definition agent_description :: "string \<Rightarrow> string \<Rightarrow> string" where
  \<comment> \<open>step 4\<close>
  "agent_description agentName txt =
     (case description_search txt of
        Some d \<Rightarrow> trim d
      | None \<Rightarrow> ''Specialized agent for '' @ agentName)"

definition generateDefaultAgentPrompt :: "string \<Rightarrow> string \<Rightarrow> string" where
  "generateDefaultAgentPrompt agentName projectName =
     ''You are a specialized agent for the **'' @ projectName @ ''** project.\<newline>\<newline>''
     @ ''## Your Role\<newline>\<newline>''
     @ ''As the '' @ agentName @ '' agent, you help with tasks related to this project. ''
     @ ''You have knowledge of the project structure, conventions, and codebase.\<newline>\<newline>''
     @ ''## Your Responsibilities\<newline>\<newline>''
     @ ''- Assist with development tasks within your area of expertise\<newline>''
     @ ''- Follow project conventions and patterns\<newline>''
     @ ''- Provide accurate information based on the project context below\<newline>''
     @ ''- Ask clarifying questions when requirements are unclear\<newline>\<newline>''
     @ ''## Guidelines\<newline>\<newline>''
     @ ''- Always consider the existing codebase patterns before suggesting changes\<newline>''
     @ ''- Prioritize maintainability and readability\<newline>''
     @ ''- Test your suggestions mentally before recommending them\<newline>''"

record update_outcome =
  success :: bool
  "method" :: string
  error :: "string option"

definition prompt_parts :: "string \<Rightarrow> string \<Rightarrow> string \<times> string" where
  \<comment> \<open>steps 1 to 3: the frontmatter and the current prompt of the file\<close>
  "prompt_parts agentName txt =
     split_frontmatter (strip_old_context (fixFrontmatterFormat txt agentName))"

definition ai_response ::
  "(string \<Rightarrow> string \<Rightarrow> string \<Rightarrow> string + ClaudeResponse) \<Rightarrow> string \<Rightarrow> string
     \<Rightarrow> string + ClaudeResponse" where
  \<comment> \<open>step 5: the one call of \<open>generateFullAgent\<close>, awaited; \<open>Inl\<close> is a promise that was
      rejected, with the message of the exception\<close>
  "ai_response generateFullAgent agentName txt =
     generateFullAgent agentName
       (agent_description agentName (strip_old_context (fixFrontmatterFormat txt agentName)))
       (snd (prompt_parts agentName txt))"

definition rebuild_parts :: "string \<Rightarrow> string \<Rightarrow> string \<Rightarrow> string \<Rightarrow> ClaudeResponse \<Rightarrow> string \<times> string \<times> string" where
  \<comment> \<open>the new prompt, the context section and the method, from the response; the reason of
      a fallback is \<open>response.error || 'unknown'\<close>\<close>
  "rebuild_parts agentName projectName staticContext currentPrompt r =
     (if ClaudeResponse.success r then
        (case find_sub ''## Project Context'' (content r) of
           Some (pre, post) \<Rightarrow>
             (if pre \<noteq> []
              then (trim pre, ''\<newline>\<newline>'' @ ''## Project Context'' @ post, ''AI generated'')
              else (content r, staticContext, ''AI prompt + static context''))
         | None \<Rightarrow> (content r, staticContext, ''AI prompt + static context''))
      else
        (if length currentPrompt > 50 then currentPrompt
         else generateDefaultAgentPrompt agentName projectName,
         staticContext,
         ''fallback (AI failed: ''
         @ (case ClaudeResponse.error r of
              None \<Rightarrow> ''unknown''
            | Some e \<Rightarrow> if e = [] then ''unknown'' else e)
         @ '')''))"

text \<open>
  \<open>updateAgentWithContextAI\<close>. The file is named by \<open>agentName\<close>, its base name. The read
  gives the text or fails with a message, the write succeeds or fails with a message;
  \<open>generateFullAgent\<close> is the call of the assistant, a function of the three texts it is
  given, whose promise is fulfilled with a response or rejected; \<open>staticContext\<close> is the
  value of \<open>generateContextSection(files)\<close>, a string built from the scanned files without
  reading or throwing. Every exception ends in the \<open>catch\<close> block. The result is the
  outcome and the text written, if any.
\<close>

definition updateAgentWithContextAI ::
  "string \<Rightarrow> string \<Rightarrow> (string \<Rightarrow> string \<Rightarrow> string \<Rightarrow> string + ClaudeResponse) \<Rightarrow> string
     \<Rightarrow> string + string \<Rightarrow> string option \<Rightarrow> update_outcome \<times> string option" where
  "updateAgentWithContextAI agentName projectName generateFullAgent staticContext read_result write_error =
     (case read_result of
        Inl msg \<Rightarrow> (\<lparr> success = False, method = ''failed'', error = Some msg \<rparr>, None)
      | Inr txt \<Rightarrow>
          (let (frontmatter, currentPrompt) = prompt_parts agentName txt
           in (case ai_response generateFullAgent agentName txt of
                 Inl msg \<Rightarrow> (\<lparr> success = False, method = ''failed'', error = Some msg \<rparr>, None)
               | Inr response \<Rightarrow>
                   (let (newPrompt, contextSection, how) =
                          rebuild_parts agentName projectName staticContext currentPrompt response;
                        rebuilt_text = frontmatter @ ''\<newline>\<newline>'' @ newPrompt @ contextSection
                    in (case write_error of
                          Some msg \<Rightarrow>
                            (\<lparr> success = False, method = ''failed'', error = Some msg \<rparr>, None)
                        | None \<Rightarrow>
                            (\<lparr> success = True, method = how, error = None \<rparr>, Some rebuilt_text))))))"

subsection \<open>Claim about the fallback\<close>

text \<open>
  Claim C8. When the file is read and written without error and the one call of the
  assistant comes back with a response \<open>r\<close> that has \<open>success = false\<close>, whatever the
  reason, the update writes the file and returns \<open>success = true\<close>; the method is
  \<open>fallback (AI failed: \<close> followed by the error of \<open>r\<close>, or by \<open>unknown\<close> when \<open>r\<close> has no
  error or an empty one, and by \<open>)\<close>. The text written is the frontmatter, the current
  prompt if it has more than 50 characters and the default prompt otherwise, and the
  static context section.
\<close>

theorem updateAgentWithContextAI_fallback:
  assumes "ai_response generateFullAgent agentName txt = Inr r"
    and "\<not> ClaudeResponse.success r"
  shows "updateAgentWithContextAI agentName projectName generateFullAgent staticContext (Inr txt) None =
     (\<lparr> success = True,
         method = ''fallback (AI failed: ''
                  @ (case ClaudeResponse.error r of
                       None \<Rightarrow> ''unknown''
                     | Some e \<Rightarrow> if e = [] then ''unknown'' else e)
                  @ '')'',
         error = None \<rparr>,
      Some (fst (prompt_parts agentName txt) @ ''\<newline>\<newline>''
            @ (if length (snd (prompt_parts agentName txt)) > 50 then snd (prompt_parts agentName txt)
               else generateDefaultAgentPrompt agentName projectName)
            @ staticContext))"
  using assms
  by (simp add: updateAgentWithContextAI_def rebuild_parts_def split_def Let_def)

theorem updateAgentWithContextAI_fallback_witness:
  "fst (updateAgentWithContextAI ''reviewer'' ''shop''
          (\<lambda>n d p. Inr (timeout_response 90000 ''You are'')) ''CTX''
          (Inr ''---\<newline>name: reviewer\<newline>---\<newline>Reviews.'') None) =
     \<lparr> success = True,
       method = ''fallback (AI failed: Timeout after 90s. Partial output: You are)'',
       error = None \<rparr>
   \<and> snd (updateAgentWithContextAI ''reviewer'' ''shop''
          (\<lambda>n d p. Inr (timeout_response 90000 ''You are'')) ''CTX''
          (Inr ''---\<newline>name: reviewer\<newline>---\<newline>Reviews.'') None) =
     Some (''---\<newline>name: reviewer\<newline>description: Agent for reviewer\<newline>model: sonnet\<newline>---''
           @ ''\<newline>\<newline>'' @ generateDefaultAgentPrompt ''reviewer'' ''shop'' @ ''CTX'')"
proof -
  let ?g = "\<lambda>n d p. Inr (timeout_response 90000 ''You are'') :: string + ClaudeResponse"
  let ?t = "''---\<newline>name: reviewer\<newline>---\<newline>Reviews.''"
  have h: "ai_response ?g ''reviewer'' ?t = Inr (timeout_response 90000 ''You are'')"
    by (simp add: ai_response_def)
  have s: "\<not> ClaudeResponse.success (timeout_response 90000 ''You are'')"
    by (simp add: timeout_response_def)
  have r: "ClaudeResponse.error (timeout_response 90000 ''You are'')
           = Some ''Timeout after 90s. Partial output: You are''"
    by (simp add: timeout_response_def show_seconds_def show_nat.simps)
  have p: "prompt_parts ''reviewer'' ?t =
      (''---\<newline>name: reviewer\<newline>description: Agent for reviewer\<newline>model: sonnet\<newline>---'', ''Reviews.'')"
    by code_simp
  show ?thesis
    using updateAgentWithContextAI_fallback[OF h s, of "''shop''" "''CTX''"]
    by (simp add: r p)
qed

section \<open>Scanning the project for markdown files\<close>

text \<open>
  \<open>findMarkdownFiles\<close> walks the tree depth first and appends to \<open>files\<close>. A directory
  that cannot be listed makes \<open>readdirSync\<close> throw, which nothing catches: the scan fails.
  A file that cannot be read is skipped. The \<open>path\<close> of a file is the list of the names
  from the scan root down to the file.
\<close>

record MarkdownFile = parsed +
  name :: string
  path :: "string list"
  content :: string

definition scan_skipDirs :: "string list" where
  "scan_skipDirs = [''node_modules'', ''.git'', ''dist'', ''out'', ''build'', ''.claude'']"

definition ends_with :: "string \<Rightarrow> string \<Rightarrow> bool" where
  \<comment> \<open>\<open>s.endsWith(suffix)\<close>\<close>
  "ends_with suffix s \<longleftrightarrow> drop (length s - length suffix) s = suffix"

fun findMarkdownFiles ::
    "dir_state \<Rightarrow> string list \<Rightarrow> MarkdownFile list \<Rightarrow> nat \<Rightarrow> fs_error + MarkdownFile list"
  and scan_entries ::
    "fsnode list \<Rightarrow> string list \<Rightarrow> MarkdownFile list \<Rightarrow> nat \<Rightarrow> fs_error + MarkdownFile list" where
  "findMarkdownFiles d dir files depth =
     (if depth > 5 then Inr files
      else (case d of
              Missing \<Rightarrow> Inr files
            | Unreadable \<Rightarrow> Inl (ReaddirFailed dir)
            | Entries es \<Rightarrow> scan_entries es dir files depth))"
| "scan_entries [] dir files depth = Inr files"
| "scan_entries (DirN n d # es) dir files depth =
     (if n \<notin> set scan_skipDirs \<and> \<not> starts_with ''.'' n
      then (case findMarkdownFiles d (dir @ [n]) files (depth + 1) of
              Inl e \<Rightarrow> Inl e
            | Inr files' \<Rightarrow> scan_entries es dir files' depth)
      else scan_entries es dir files depth)"
| "scan_entries (FileN n c # es) dir files depth =
     (if ends_with ''.md'' n
      then (case c of
              None \<Rightarrow> scan_entries es dir files depth
            | Some txt \<Rightarrow>
                scan_entries es dir
                  (files @ [\<lparr> title = title (parseMarkdown txt),
                              description = description (parseMarkdown txt),
                              name = n, path = dir @ [n], content = txt \<rparr>])
                  depth)
      else scan_entries es dir files depth)"

definition scanMarkdownFiles :: "dir_state \<Rightarrow> fs_error + MarkdownFile list" where
  "scanMarkdownFiles root = findMarkdownFiles root [] [] 0"

definition allowed_dir :: "string \<Rightarrow> bool" where
  \<comment> \<open>a directory the walk enters\<close>
  "allowed_dir n \<longleftrightarrow> n \<notin> set scan_skipDirs \<and> \<not> starts_with ''.'' n"

definition well_placed :: "MarkdownFile \<Rightarrow> bool" where
  \<comment> \<open>the file stands below at most five directories, each of which the walk enters\<close>
  "well_placed f \<longleftrightarrow>
     path f \<noteq> [] \<and> last (path f) = name f
     \<and> length (butlast (path f)) \<le> 5 \<and> list_all allowed_dir (butlast (path f))"

definition demo_tree :: dir_state where
  \<comment> \<open>markdown files five and six directories down, and in directories the walk skips\<close>
  "demo_tree = Entries
     [FileN ''README.md'' (Some ''# Shop''),
      DirN ''node_modules'' (Entries [FileN ''x.md'' (Some ''x'')]),
      DirN ''.notes'' (Entries [FileN ''y.md'' (Some ''y'')]),
      DirN ''a'' (Entries [DirN ''b'' (Entries [DirN ''c'' (Entries [DirN ''d'' (Entries
        [DirN ''e'' (Entries
          [FileN ''deep.md'' (Some ''Deep.''),
           DirN ''f'' (Entries [FileN ''deeper.md'' (Some ''Deeper.'')])])])])])])]"

subsection \<open>Claim about the depth and the skipped directories\<close>

lemma scan_well_placed:
  "findMarkdownFiles d dir files depth = Inr out \<Longrightarrow> length dir = depth \<Longrightarrow>
     list_all allowed_dir dir \<Longrightarrow> list_all well_placed files \<Longrightarrow> list_all well_placed out"
  "scan_entries es dir files depth = Inr out \<Longrightarrow> depth \<le> 5 \<Longrightarrow> length dir = depth \<Longrightarrow>
     list_all allowed_dir dir \<Longrightarrow> list_all well_placed files \<Longrightarrow> list_all well_placed out"
proof (induction d dir files depth and es dir files depth arbitrary: out and out
    rule: findMarkdownFiles_scan_entries.induct)
  case (1 d dir files depth)
  show ?case
  proof (cases "depth > 5")
    case True
    with "1.prems" show ?thesis by simp
  next
    case False
    show ?thesis
    proof (cases d)
      case Missing
      with False "1.prems" show ?thesis by simp
    next
      case Unreadable
      with False "1.prems" show ?thesis by simp
    next
      case (Entries es)
      with False "1.prems" have "scan_entries es dir files depth = Inr out" by simp
      from "1.IH"[OF False Entries this] False "1.prems" show ?thesis by simp
    qed
  qed
next
  case (2 dir files depth)
  then show ?case by simp
next
  case (3 n d es dir files depth)
  show ?case
  proof (cases "n \<notin> set scan_skipDirs \<and> \<not> starts_with ''.'' n")
    case True
    with "3.prems"(1) obtain files' where
      f: "findMarkdownFiles d (dir @ [n]) files (depth + 1) = Inr files'"
      and r: "scan_entries es dir files' depth = Inr out"
      by (auto split: sum.splits)
    from True have "allowed_dir n" by (simp add: allowed_dir_def)
    with "3.prems"(4) have "list_all allowed_dir (dir @ [n])" by simp
    with "3.IH"(1)[OF True f] "3.prems" have "list_all well_placed files'" by simp
    from "3.IH"(2)[OF True f r "3.prems"(2,3,4) this] show ?thesis .
  next
    case False
    with "3.prems"(1) have "scan_entries es dir files depth = Inr out" by auto
    from "3.IH"(3)[OF False this "3.prems"(2-5)] show ?thesis .
  qed
next
  case (4 n c es dir files depth)
  show ?case
  proof (cases "ends_with ''.md'' n")
    case False
    with "4.prems"(1) have "scan_entries es dir files depth = Inr out" by simp
    from "4.IH"(3)[OF False this "4.prems"(2-5)] show ?thesis .
  next
    case True
    show ?thesis
    proof (cases c)
      case None
      with True "4.prems"(1) have "scan_entries es dir files depth = Inr out" by simp
      from "4.IH"(1)[OF True None this "4.prems"(2-5)] show ?thesis .
    next
      case (Some body)
      let ?f = "\<lparr> title = title (parseMarkdown body), description = description (parseMarkdown body),
                  name = n, path = dir @ [n], content = body \<rparr>"
      from True Some "4.prems"(1) have r: "scan_entries es dir (files @ [?f]) depth = Inr out"
        by simp
      have "well_placed ?f"
        using "4.prems"(2,3,4) by (simp add: well_placed_def)
      with "4.prems"(5) have "list_all well_placed (files @ [?f])" by simp
      from "4.IH"(2)[OF True Some r "4.prems"(2,3,4) this] show ?thesis .
    qed
  qed
qed

text \<open>
  Claim C7. Every file a scan returns stands below at most five directories, the depth
  cap of \<open>findMarkdownFiles\<close>, counted from the scan root: a file directly in the root
  stands below none. None of these directories is in the skip list (node_modules, .git,
  dist, out, build, .claude) and none has a name that begins with a dot. The scan root
  itself is not tested against the skip list.
\<close>

theorem scanMarkdownFiles_depth_and_skips:
  assumes "scanMarkdownFiles root = Inr files"
  shows "\<forall>f \<in> set files.
           path f \<noteq> [] \<and> last (path f) = name f
           \<and> length (butlast (path f)) \<le> 5
           \<and> (\<forall>d \<in> set (butlast (path f)). d \<notin> set scan_skipDirs \<and> \<not> starts_with ''.'' d)"
proof -
  have "list_all well_placed files"
    using scan_well_placed(1)[OF assms[unfolded scanMarkdownFiles_def]] by simp
  then show ?thesis
    by (simp add: list_all_iff well_placed_def allowed_dir_def)
qed

theorem scanMarkdownFiles_depth_and_skips_witness:
  "map_sum id (map path) (scanMarkdownFiles demo_tree) =
     Inr [[''README.md''], [''a'', ''b'', ''c'', ''d'', ''e'', ''deep.md'']]
   \<and> (case scanMarkdownFiles demo_tree of
        Inl e \<Rightarrow> False
      | Inr files \<Rightarrow>
          list_all (\<lambda>f. length (butlast (path f)) \<le> 5
                         \<and> list_all allowed_dir (butlast (path f))) files)"
proof -
  let ?files = "[\<lparr> title = Some ''Shop'', description = None, name = ''README.md'',
                     path = [''README.md''], content = ''# Shop'' \<rparr>,
                 \<lparr> title = None, description = Some ''Deep.'', name = ''deep.md'',
                     path = [''a'', ''b'', ''c'', ''d'', ''e'', ''deep.md''], content = ''Deep.'' \<rparr>]"
  have s: "scanMarkdownFiles demo_tree = Inr ?files"
    by code_simp
  from scanMarkdownFiles_depth_and_skips[OF s]
  have "list_all (\<lambda>f. length (butlast (path f)) \<le> 5
                         \<and> list_all allowed_dir (butlast (path f))) ?files"
    by (simp add: list_all_iff allowed_dir_def)
  with s show ?thesis by simp
qed

end
